theory Spec2Isabelle
  imports Complex_Main
begin

section \<open>Python values of the GPTQ runner\<close>

text \<open>
  The development follows \<^verbatim>\<open>torchao/quantization/GPTQ.py\<close>: the class
  \<^verbatim>\<open>MultiInput\<close>, and the methods \<^verbatim>\<open>run\<close>,
  \<^verbatim>\<open>get_quantized_state_dict\<close>, \<^verbatim>\<open>call_function\<close> and
  \<^verbatim>\<open>faster_quant\<close> of \<^verbatim>\<open>GenericGPTQRunner\<close>.
  Tensor entries are real numbers: rounding of floating-point arithmetic is not modelled, and
  the only cast that can change a value, \<^verbatim>\<open>DQ.to(orig_dtype)\<close>, is a function
  of the model. Device transfers (\<^verbatim>\<open>.cuda()\<close>, \<^verbatim>\<open>.cpu()\<close>,
  \<^verbatim>\<open>.to(device)\<close>) and \<^verbatim>\<open>print\<close> do not change values and are left out.
  Every exception the source can raise is a value \<open>Inl e\<close>.
\<close>

datatype error = AssertionError | AttributeError | IndexError | TypeError | ValueError
  | ZeroDivisionError | UnboundLocalError | RuntimeError | LinAlgError

definition bind_err :: "error + 'a \<Rightarrow> ('a \<Rightarrow> error + 'b) \<Rightarrow> error + 'b" where
  "bind_err m f = (case m of Inl e \<Rightarrow> Inl e | Inr x \<Rightarrow> f x)"

text \<open>A \<^verbatim>\<open>for\<close> loop over a list whose body may raise.\<close>

primrec fold_err :: "('a \<Rightarrow> 's \<Rightarrow> error + 's) \<Rightarrow> 'a list \<Rightarrow> 's \<Rightarrow> error + 's" where
  "fold_err f [] s = Inr s"
| "fold_err f (x # xs) s = (case f x s of Inl e \<Rightarrow> Inl e | Inr s' \<Rightarrow> fold_err f xs s')"

subsection \<open>Tensors\<close>

text \<open>
  A tensor is its shape and its entries in row-major order. A two-dimensional tensor of shape
  \<open>[r, c]\<close> has entry \<open>(i, j)\<close> at position \<open>i * c + j\<close>.
\<close>

record tensor =
  shape :: "nat list"
  data :: "real list"

type_synonym matrix = "real list list"

definition is_matrix :: "tensor \<Rightarrow> bool" where
  "is_matrix t \<longleftrightarrow> length (shape t) = 2 \<and> length (data t) = shape t ! 0 * shape t ! 1"

text \<open>\<^verbatim>\<open>t[:, j]\<close> and the list of all columns of a two-dimensional tensor.\<close>

definition column :: "tensor \<Rightarrow> nat \<Rightarrow> real list" where
  "column t j = map (\<lambda>i. data t ! (i * (shape t ! 1) + j)) [0..<shape t ! 0]"

definition columns_of :: "tensor \<Rightarrow> real list list" where
  "columns_of t = map (column t) [0..<shape t ! 1]"

text \<open>The tensor of shape \<open>[r, length cs]\<close> whose columns are \<open>cs\<close>.\<close>

definition from_columns :: "nat \<Rightarrow> real list list \<Rightarrow> tensor" where
  "from_columns r cs =
     \<lparr>shape = [r, length cs], data = concat (map (\<lambda>i. map (\<lambda>c. c ! i) cs) [0..<r])\<rparr>"

text \<open>\<^verbatim>\<open>t.flatten()\<close>, and \<^verbatim>\<open>v.unsqueeze(1)\<close> of a one-dimensional \<open>v\<close>.\<close>

definition flatten :: "tensor \<Rightarrow> real list" where
  "flatten t = data t"

definition unsqueeze1 :: "real list \<Rightarrow> tensor" where
  "unsqueeze1 v = \<lparr>shape = [length v, 1], data = v\<rparr>"

text \<open>
  Python slicing \<^verbatim>\<open>xs[a:b]\<close>: a negative bound counts from the end, and bounds
  are clipped to the list.
\<close>

definition slice_index :: "nat \<Rightarrow> int \<Rightarrow> nat" where
  "slice_index n i = (if i < 0 then nat (max 0 (int n + i)) else min n (nat i))"

definition py_slice :: "int \<Rightarrow> int \<Rightarrow> 'a list \<Rightarrow> 'a list" where
  "py_slice a b xs =
     (let lo = slice_index (length xs) a; hi = slice_index (length xs) b
      in take (hi - lo) (drop lo xs))"

text \<open>
  \<^verbatim>\<open>range(0, stop, step)\<close>: a zero step raises, a negative step gives the empty range
  (the start 0 is never above \<open>stop\<close>).
\<close>

definition py_range :: "nat \<Rightarrow> int \<Rightarrow> error + nat list" where
  "py_range stop step =
     (if step = 0 then Inl ValueError
      else if step < 0 then Inr []
      else Inr (map (\<lambda>k. k * nat step) [0..<(stop + nat step - 1) div nat step]))"

subsection \<open>Square matrices and the Cholesky routines of torch\<close>

text \<open>The Hessian is a square matrix, kept as the list of its rows.\<close>

definition square :: "nat \<Rightarrow> matrix \<Rightarrow> bool" where
  "square n H \<longleftrightarrow> length H = n \<and> list_all (\<lambda>r. length r = n) H"

definition dot :: "real list \<Rightarrow> real list \<Rightarrow> real" where
  "dot xs ys = sum_list (map2 (*) xs ys)"

definition transpose_mat :: "matrix \<Rightarrow> matrix" where
  "transpose_mat A = map (\<lambda>j. map (\<lambda>r. r ! j) A) [0..<length A]"

text \<open>
  \<^verbatim>\<open>torch.linalg.cholesky(A)\<close>: the lower-triangular \<open>L\<close> with positive diagonal and
  \<open>L L\<^sup>T = A\<close>, computed row by row from the lower triangle of \<open>A\<close>; it raises when a
  pivot is not positive. \<open>chol_offdiag\<close> computes the entries left of the diagonal of one
  row from the rows above it.
\<close>

fun chol_offdiag :: "matrix \<Rightarrow> real list \<Rightarrow> real list \<Rightarrow> real list" where
  "chol_offdiag [] a acc = acc"
| "chol_offdiag (Lj # Ls) a acc =
     chol_offdiag Ls a (acc @ [(a ! length acc - dot acc Lj) / (Lj ! length acc)])"

fun chol_rows :: "nat \<Rightarrow> matrix \<Rightarrow> matrix \<Rightarrow> matrix option" where
  "chol_rows n [] L = Some L"
| "chol_rows n (a # As) L =
     (let off = chol_offdiag L a []; s = a ! length L - dot off off
      in if s \<le> 0 then None
         else chol_rows n As (L @ [off @ sqrt s # replicate (n - length L - 1) 0]))"

definition cholesky :: "matrix \<Rightarrow> matrix option" where
  "cholesky A = chol_rows (length A) A []"

text \<open>
  \<^verbatim>\<open>torch.linalg.cholesky(A, upper=True)\<close>: the upper-triangular \<open>U\<close> with
  \<open>U\<^sup>T U = A\<close>, from the upper triangle of \<open>A\<close>.
\<close>

definition cholesky_upper :: "matrix \<Rightarrow> matrix option" where
  "cholesky_upper A = map_option transpose_mat (cholesky (transpose_mat A))"

text \<open>
  \<^verbatim>\<open>torch.cholesky_inverse(L)\<close>: the inverse of \<open>L L\<^sup>T\<close>, as
  \<open>M\<^sup>T M\<close> for \<open>M\<close> the inverse of the triangular \<open>L\<close>, which forward
  substitution gives row by row.
\<close>

definition tri_inv_row :: "nat \<Rightarrow> real list \<Rightarrow> matrix \<Rightarrow> real list" where
  "tri_inv_row n Li M =
     map (\<lambda>j. if j < length M
              then - sum_list (map2 (\<lambda>l Mk. l * Mk ! j) Li M) / (Li ! length M)
              else if j = length M then 1 / (Li ! length M) else 0) [0..<n]"

fun tri_inv_rows :: "nat \<Rightarrow> matrix \<Rightarrow> matrix \<Rightarrow> matrix" where
  "tri_inv_rows n [] M = M"
| "tri_inv_rows n (Li # Ls) M = tri_inv_rows n Ls (M @ [tri_inv_row n Li M])"

definition cholesky_inverse :: "matrix \<Rightarrow> matrix" where
  "cholesky_inverse L =
     (let n = length L; M = tri_inv_rows n L []
      in map (\<lambda>i. map (\<lambda>j. sum_list (map (\<lambda>Mk. Mk ! i * Mk ! j) M)) [0..<n]) [0..<n])"


subsection \<open>Graph values, the quantization mode and the runner\<close>

text \<open>
  A value that flows through the graph: a tensor, a tensor that is one of the model's parameter
  objects (with the object's \<^verbatim>\<open>id\<close>), a \<^verbatim>\<open>MultiInput\<close> with its
  \<^verbatim>\<open>values\<close>, or any other Python object.
\<close>

datatype val = Tensor tensor | Param nat tensor | MultiInput "val list" | Object string

datatype target = aten_linear_default | aten_op string

text \<open>
  The functions that \<^verbatim>\<open>configure_quantization_mode\<close> stores. The three that
  the source compares with \<^verbatim>\<open>None\<close> are options.
\<close>

record 'p quantization_mode =
  get_qparams_func :: "(tensor \<Rightarrow> 'p) option"
  quantize_func :: "tensor \<Rightarrow> 'p \<Rightarrow> tensor"
  dequantize_func :: "tensor \<Rightarrow> 'p \<Rightarrow> tensor"
  combine_qparams_list_func :: "'p list \<Rightarrow> 'p"
  make_names_and_values_dict_func :: "tensor \<Rightarrow> 'p \<Rightarrow> (string \<times> val) list"
  skip_layer_func :: "(tensor \<Rightarrow> bool) option"
  act_fake_quant_func :: "(tensor \<Rightarrow> tensor) option"

text \<open>
  A node of the traced graph, as \<^verbatim>\<open>torch.fx.Interpreter.run\<close> walks it: a
  placeholder takes the next input, a \<^verbatim>\<open>call_function\<close> node applies its target
  to positional and keyword arguments, the output node ends the walk. An argument is the
  result of an earlier node or a constant.
\<close>

datatype arg = Ref string | Const val

datatype node = Placeholder string
  | CallFunction string target "arg list" "(string \<times> arg) list"
  | Output arg

text \<open>
  The attributes of \<^verbatim>\<open>GenericGPTQRunner\<close>. \<open>qmode\<close> is \<open>None\<close> until
  \<^verbatim>\<open>configure_quantization_mode\<close> has run (the attributes do not exist before).
  \<open>orig_dtype\<close> stands for the dtype of the model's weights: it rounds a float32 value
  to that dtype (the identity for float32 weights). \<open>exec\<close> is
  \<^verbatim>\<open>torch.fx.Interpreter.call_function\<close>, which applies the target to its arguments.
\<close>

record 'p runner =
  id_to_name :: "nat \<rightharpoonup> string"
  graph :: "node list"
  new_state_dict :: "string \<rightharpoonup> val"
  blocksize :: int
  percdamp :: real
  groupsize :: int
  inputs :: "val list"
  gptq_done :: bool
  debug :: bool
  qmode :: "'p quantization_mode option"
  orig_dtype :: "real \<Rightarrow> real"
  exec :: "target \<Rightarrow> val list \<Rightarrow> (string \<times> val) list \<Rightarrow> error + val"

text \<open>\<^verbatim>\<open>t.to(orig_dtype)\<close>: every entry is rounded, the shape stays.\<close>

definition to_orig_dtype :: "'p runner \<Rightarrow> tensor \<Rightarrow> tensor" where
  "to_orig_dtype rn t = t\<lparr>data := map (orig_dtype rn) (data t)\<rparr>"

section \<open>The GPTQ algorithm: \<^verbatim>\<open>faster_quant\<close>\<close>

subsection \<open>Dead columns and dampening (lines 481 to 494)\<close>

definition diag_of :: "matrix \<Rightarrow> real list" where
  "diag_of H = map (\<lambda>i. H ! i ! i) [0..<length H]"

text \<open>\<^verbatim>\<open>dead = torch.diag(H) == 0\<close>\<close>

definition dead_of :: "matrix \<Rightarrow> bool list" where
  "dead_of H = map (\<lambda>h. h = 0) (diag_of H)"

text \<open>\<^verbatim>\<open>H[dead, dead] = 1\<close>: the diagonal entries at the dead indices.\<close>

definition set_dead_diag :: "matrix \<Rightarrow> matrix" where
  "set_dead_diag H = map (\<lambda>i. if H ! i ! i = 0 then (H ! i)[i := 1] else H ! i) [0..<length H]"

text \<open>\<^verbatim>\<open>W[:, dead] = 0\<close>, on the columns of \<open>W\<close>.\<close>

definition zero_dead_columns :: "bool list \<Rightarrow> real list list \<Rightarrow> real list list" where
  "zero_dead_columns dead cs = map2 (\<lambda>d c. if d then map (\<lambda>_. 0) c else c) dead cs"

text \<open>
  \<^verbatim>\<open>torch.mean\<close>. Of no entries it is NaN in torch and \<open>0\<close> here; the value is
  then added to no entry.
\<close>

definition mean :: "real list \<Rightarrow> real" where
  "mean xs = sum_list xs / real (length xs)"

text \<open>\<^verbatim>\<open>H[diag, diag] += damp\<close> for \<^verbatim>\<open>diag = arange(columns)\<close>\<close>

definition add_damp :: "real \<Rightarrow> matrix \<Rightarrow> matrix" where
  "add_damp damp H = map (\<lambda>i. (H ! i)[i := H ! i ! i + damp]) [0..<length H]"

text \<open>Lines 491 to 494: the upper Cholesky factor of the inverse of \<open>H\<close>.\<close>

definition inverse_factor :: "matrix \<Rightarrow> error + matrix" where
  "inverse_factor H =
     (case cholesky H of None \<Rightarrow> Inl LinAlgError
      | Some L \<Rightarrow> (case cholesky_upper (cholesky_inverse L) of
                     None \<Rightarrow> Inl LinAlgError | Some U \<Rightarrow> Inr U))"

subsection \<open>One column (lines 506 to 528)\<close>

text \<open>The local tensors of one block, as lists of columns, and the two qparams variables.\<close>

record 'p block_state =
  W1 :: "real list list"
  DQ1 :: "real list list"
  Err1 :: "real list list"
  cur_qparams :: "'p option"
  all_qparams :: "'p list"

text \<open>
  \<^verbatim>\<open>groupsize != -1 and (i1 + i) % groupsize == 0\<close>; Python's \<^verbatim>\<open>%\<close>
  takes the sign of the divisor, as \<open>mod\<close> on \<open>int\<close> does, and raises for a zero divisor.
\<close>

definition start_of_group :: "int \<Rightarrow> nat \<Rightarrow> error + bool" where
  "start_of_group gs c =
     (if gs = - 1 then Inr False
      else if gs = 0 then Inl ZeroDivisionError
      else Inr (int c mod gs = 0))"

text \<open>
  \<^verbatim>\<open>DQ1[:, i] = dq\<close> for a column of \<open>r\<close> rows: \<open>dq\<close> has \<open>r\<close> entries, or one
  entry that is broadcast; any other size raises.
\<close>

definition broadcast_column :: "nat \<Rightarrow> real list \<Rightarrow> error + real list" where
  "broadcast_column r v =
     (if length v = r then Inr v
      else if length v = 1 then Inr (replicate r (v ! 0))
      else Inl RuntimeError)"

text \<open>
  The quantize and dequantize calls of lines 515 and 519 on one column \<open>w\<close>.
\<close>

definition quantize_column :: "'p quantization_mode \<Rightarrow> 'p \<Rightarrow> real list \<Rightarrow> real list" where
  "quantize_column qm qp w = flatten (quantize_func qm (unsqueeze1 w) qp)"

definition dequantize_column :: "'p quantization_mode \<Rightarrow> 'p \<Rightarrow> real list \<Rightarrow> real list" where
  "dequantize_column qm qp q = flatten (dequantize_func qm (unsqueeze1 q) qp)"

text \<open>
  Lines 509 to 513, at global column \<open>c = i1 + i\<close>: at the start of a group the qparams
  of the group are computed from the columns \<open>c\<close> to \<open>c + groupsize\<close> of the outer
  weight, whose columns are \<open>Wcols\<close> and which has \<open>r\<close> rows; \<open>gq\<close> is
  \<^verbatim>\<open>self.get_qparams_func\<close>.
\<close>

definition group_slice :: "'p runner \<Rightarrow> nat \<Rightarrow> real list list \<Rightarrow> nat \<Rightarrow> tensor" where
  "group_slice rn r Wcols c =
     from_columns r (py_slice (int c) (int c + groupsize rn) Wcols)"

definition enter_group ::
  "'p runner \<Rightarrow> (tensor \<Rightarrow> 'p) \<Rightarrow> nat \<Rightarrow> real list list \<Rightarrow> nat \<Rightarrow> 'p block_state
     \<Rightarrow> error + 'p block_state" where
  "enter_group rn gq r Wcols c st =
     bind_err (start_of_group (groupsize rn) c) (\<lambda>new_group.
       if new_group
       then let qp = gq (group_slice rn r Wcols c)
            in Inr (st\<lparr>cur_qparams := Some qp, all_qparams := all_qparams st @ [qp]\<rparr>)
       else Inr st)"

text \<open>
  Lines 521 to 528 for local column \<open>i\<close> of the block starting at \<open>i1\<close>, given the
  dequantized column \<open>dq\<close>: the column of \<^verbatim>\<open>DQ1\<close>, the error
  \<^verbatim>\<open>err1 = (w - dq) / d\<close> with \<open>d = Hinv[i1 + i, i1 + i]\<close>, and the update
  \<^verbatim>\<open>W1[:, i:] -= err1.unsqueeze(1).matmul(Hinv1[i, i:].unsqueeze(0))\<close>. The
  \<^verbatim>\<open>Losses\<close> tensors are written and never read, and are left out.
\<close>

definition column_error :: "matrix \<Rightarrow> nat \<Rightarrow> real list \<Rightarrow> real list \<Rightarrow> real list" where
  "column_error Hinv c w dq = map2 (\<lambda>a b. (a - b) / (Hinv ! c ! c)) w dq"

definition feed_back ::
  "matrix \<Rightarrow> nat \<Rightarrow> nat \<Rightarrow> real list \<Rightarrow> real list list \<Rightarrow> real list list" where
  "feed_back Hinv i1 i err1 cols =
     map (\<lambda>j. if i \<le> j
              then map2 (\<lambda>x e. x - e * (Hinv ! (i1 + i) ! (i1 + j))) (cols ! j) err1
              else cols ! j) [0..<length cols]"

definition store_column ::
  "matrix \<Rightarrow> nat \<Rightarrow> nat \<Rightarrow> real list \<Rightarrow> 'p block_state \<Rightarrow> 'p block_state" where
  "store_column Hinv i1 i dq st =
     (let err1 = column_error Hinv (i1 + i) (W1 st ! i) dq
      in st\<lparr>DQ1 := (DQ1 st)[i := dq],
             W1 := feed_back Hinv i1 i err1 (W1 st),
             Err1 := (Err1 st)[i := err1]\<rparr>)"

text \<open>
  The body of the inner loop: the group test, then the column is quantized and dequantized
  with the current qparams (lines 515 and 519) and stored.
\<close>

definition column_step ::
  "'p runner \<Rightarrow> 'p quantization_mode \<Rightarrow> (tensor \<Rightarrow> 'p) \<Rightarrow> matrix \<Rightarrow> nat \<Rightarrow> real list list
     \<Rightarrow> nat \<Rightarrow> nat \<Rightarrow> 'p block_state \<Rightarrow> error + 'p block_state" where
  "column_step rn qm gq Hinv r Wcols i1 i st =
     bind_err (enter_group rn gq r Wcols (i1 + i) st) (\<lambda>st.
       case cur_qparams st of
         None \<Rightarrow> Inl UnboundLocalError
       | Some qp \<Rightarrow>
           bind_err (broadcast_column r
                       (dequantize_column qm qp (quantize_column qm qp (W1 st ! i))))
             (\<lambda>dq. Inr (store_column Hinv i1 i dq st)))"

subsection \<open>One block (lines 498 to 533)\<close>

record 'p quant_state =
  Wc :: "real list list"
  DQc :: "real list list"
  cur :: "'p option"
  groups :: "'p list"

text \<open>
  Column \<open>j\<close> of \<^verbatim>\<open>Err1.matmul(Hinv[i1:i2, i2:])\<close>, given as the coefficients
  \<open>Hinv[i1 + k, j]\<close> for the columns \<open>k\<close> of \<open>Err1\<close>.
\<close>

definition combine_columns :: "nat \<Rightarrow> real list list \<Rightarrow> real list \<Rightarrow> real list" where
  "combine_columns r es hs = map (\<lambda>i. sum_list (map2 (\<lambda>e h. e ! i * h) es hs)) [0..<r]"

text \<open>
  \<^verbatim>\<open>W[:, i2:] -= Err1.matmul(Hinv[i1:i2, i2:])\<close> on the columns of \<open>W\<close>.
\<close>

definition propagate_block ::
  "matrix \<Rightarrow> nat \<Rightarrow> nat \<Rightarrow> nat \<Rightarrow> real list list \<Rightarrow> real list list \<Rightarrow> real list list" where
  "propagate_block Hinv r i1 i2 errs cols =
     map (\<lambda>j. if i2 \<le> j
              then map2 (-) (cols ! j)
                     (combine_columns r errs (map (\<lambda>k. Hinv ! (i1 + k) ! j) [0..<i2 - i1]))
              else cols ! j) [0..<length cols]"

definition block_step ::
  "'p runner \<Rightarrow> 'p quantization_mode \<Rightarrow> (tensor \<Rightarrow> 'p) \<Rightarrow> matrix \<Rightarrow> nat \<Rightarrow> nat
     \<Rightarrow> nat \<Rightarrow> 'p quant_state \<Rightarrow> error + 'p quant_state" where
  "block_step rn qm gq Hinv r columns i1 s =
     (let i2 = min (i1 + nat (blocksize rn)) columns;
          count = i2 - i1;
          st0 = \<lparr>W1 = take count (drop i1 (Wc s)),
                 DQ1 = replicate count (replicate r 0),
                 Err1 = replicate count (replicate r 0),
                 cur_qparams = cur s, all_qparams = groups s\<rparr>
      in bind_err (fold_err (column_step rn qm gq Hinv r (Wc s) i1) [0..<count] st0) (\<lambda>st.
         Inr \<lparr>Wc = propagate_block Hinv r i1 i2 (Err1 st) (Wc s),
              DQc = take i1 (DQc s) @ DQ1 st @ drop i2 (DQc s),
              cur = cur_qparams st, groups = all_qparams st\<rparr>))"

subsection \<open>The whole function (lines 469 to 547)\<close>

text \<open>Lines 481 to 490 on \<open>H\<close>: the dead diagonal entries set to one, then dampened.\<close>

definition damped_hessian :: "'p runner \<Rightarrow> matrix \<Rightarrow> matrix" where
  "damped_hessian rn H =
     (let H1 = set_dead_diag H;
          damp = percdamp rn * mean (diag_of H1)
      in add_damp damp H1)"

text \<open>
  The state before the first block: \<open>W\<close> with its dead columns zeroed, \<open>DQ\<close> all zero,
  no group yet; with the whole-tensor group size \<^verbatim>\<open>cur_qparams\<close> was computed in
  line 480, from \<open>W\<close> as it was passed in, before the dead columns were zeroed.
\<close>

definition initial_state :: "'p runner \<Rightarrow> (tensor \<Rightarrow> 'p) \<Rightarrow> matrix \<Rightarrow> tensor \<Rightarrow> 'p quant_state" where
  "initial_state rn gq H Wt =
     \<lparr>Wc = zero_dead_columns (dead_of H) (columns_of Wt),
      DQc = replicate (shape Wt ! 1) (replicate (shape Wt ! 0) 0),
      cur = (if groupsize rn = - 1 then Some (gq Wt) else None),
      groups = []\<rparr>"

text \<open>
  Lines 469 to 539: everything up to the list of per-group qparams. The result is the columns
  of \<^verbatim>\<open>DQ\<close> and the list \<^verbatim>\<open>all_qparams\<close> as it is handed to
  \<^verbatim>\<open>combine_qparams_list_func\<close>. A weight that is not two-dimensional has no
  \<^verbatim>\<open>shape[1]\<close>; a Hessian that is not \<open>columns \<times> columns\<close> fails in the
  indexing of lines 482 to 490 or in the factorization.
\<close>

definition faster_quant_groups ::
  "'p runner \<Rightarrow> 'p quantization_mode \<Rightarrow> (tensor \<Rightarrow> 'p) \<Rightarrow> matrix \<Rightarrow> tensor
     \<Rightarrow> error + (real list list \<times> 'p list)" where
  "faster_quant_groups rn qm gq H Wt =
     (if \<not> is_matrix Wt then Inl IndexError
      else
        let r = shape Wt ! 0;
            columns = shape Wt ! 1
        in if \<not> square columns H then Inl RuntimeError
           else
             bind_err (inverse_factor (damped_hessian rn H)) (\<lambda>Hinv.
             bind_err (py_range columns (blocksize rn)) (\<lambda>starts.
             bind_err (fold_err (block_step rn qm gq Hinv r columns) starts
                         (initial_state rn gq H Wt)) (\<lambda>s.
             if groups s = []
             then (case cur s of None \<Rightarrow> Inl UnboundLocalError
                   | Some qp \<Rightarrow> Inr (DQc s, [qp]))
             else Inr (DQc s, groups s)))))"

text \<open>
  \<^verbatim>\<open>faster_quant(H, W)\<close>. A runner without quantization mode has no
  \<^verbatim>\<open>get_qparams_func\<close> attribute, and \<^verbatim>\<open>None\<close> is not callable; both are
  reported at once. The result is \<^verbatim>\<open>(Q, DQ.to(orig_dtype), all_qparams)\<close>.
\<close>

definition faster_quant ::
  "'p runner \<Rightarrow> matrix \<Rightarrow> tensor \<Rightarrow> error + (tensor \<times> tensor \<times> 'p)" where
  "faster_quant rn H Wt =
     (case qmode rn of
        None \<Rightarrow> Inl AttributeError
      | Some qm \<Rightarrow>
          (case get_qparams_func qm of
             None \<Rightarrow> Inl TypeError
           | Some gq \<Rightarrow>
               bind_err (faster_quant_groups rn qm gq H Wt) (\<lambda>(cs, qs).
                 let combined = combine_qparams_list_func qm qs;
                     DQf = from_columns (shape Wt ! 0) cs;
                     Q = quantize_func qm DQf combined
                 in Inr (Q, to_orig_dtype rn DQf, combined))))"


section \<open>The runner: \<^verbatim>\<open>call_function\<close>\<close>

subsection \<open>Arguments (lines 319 to 350)\<close>

text \<open>
  \<^verbatim>\<open>tensors_to_cuda\<close>: the copy of a parameter on the device is a new tensor
  object with the same entries. The model is moved to the CPU when it is traced, so every
  parameter is copied.
\<close>

definition tensors_to_cuda :: "val list \<Rightarrow> val list" where
  "tensors_to_cuda xs = map (\<lambda>x. case x of Param i t \<Rightarrow> Tensor t | _ \<Rightarrow> x) xs"

text \<open>
  \<^verbatim>\<open>tree_flatten((args, kwargs))\<close> and \<^verbatim>\<open>tree_unflatten\<close>. Positional
  and keyword arguments are leaves (no nested lists or tuples), so the flat list is the
  positional arguments followed by the keyword values.
\<close>

definition tree_flatten :: "val list \<Rightarrow> (string \<times> val) list \<Rightarrow> val list" where
  "tree_flatten args kwargs = args @ map snd kwargs"

definition tree_unflatten ::
  "val list \<Rightarrow> (string \<times> val) list \<Rightarrow> val list \<Rightarrow> val list \<times> (string \<times> val) list" where
  "tree_unflatten args kwargs inp =
     (take (length args) inp, zip (map fst kwargs) (drop (length args) inp))"

text \<open>\<^verbatim>\<open>flat_args\<close> after line 328.\<close>

definition flat_args_of :: "val list \<Rightarrow> (string \<times> val) list \<Rightarrow> val list" where
  "flat_args_of args kwargs = tensors_to_cuda (tree_flatten args kwargs)"

fun is_MultiInput :: "val \<Rightarrow> bool" where
  "is_MultiInput (MultiInput vs) = True"
| "is_MultiInput _ = False"

text \<open>\<^verbatim>\<open>len(x.values) if isinstance(x, MultiInput) else 1\<close>\<close>

fun len_values :: "val \<Rightarrow> nat" where
  "len_values (MultiInput vs) = length vs"
| "len_values _ = 1"

definition multi_input_count :: "val list \<Rightarrow> nat" where
  "multi_input_count flat_args = Max (set (map len_values flat_args))"

text \<open>\<^verbatim>\<open>list(zip(*ls))\<close>: as many tuples as the shortest list has entries.\<close>

definition zip_star :: "'a list list \<Rightarrow> 'a list list" where
  "zip_star ls =
     (if ls = [] then [] else map (\<lambda>k. map (\<lambda>l. l ! k) ls) [0..<Min (set (map length ls))])"

text \<open>\<^verbatim>\<open>x.values if isinstance(x, MultiInput) else [x] * multi_input_count\<close>\<close>

fun values_or_broadcast :: "nat \<Rightarrow> val \<Rightarrow> val list" where
  "values_or_broadcast n (MultiInput vs) = vs"
| "values_or_broadcast n x = replicate n x"

text \<open>The lengths of the \<^verbatim>\<open>MultiInput\<close> arguments among \<open>flat_args\<close>.\<close>

definition batch_lengths :: "val list \<Rightarrow> nat list" where
  "batch_lengths flat_args = map len_values (filter is_MultiInput flat_args)"

definition transposed_args :: "val list \<Rightarrow> val list list" where
  "transposed_args flat_args =
     (if list_ex is_MultiInput flat_args
      then zip_star (map (values_or_broadcast (multi_input_count flat_args)) flat_args)
      else [flat_args])"

subsection \<open>Nodes that are not quantized (lines 366 to 392 and 467)\<close>

text \<open>A loop that collects one output per element and stops at the first exception.\<close>

primrec map_err :: "('a \<Rightarrow> error + 'b) \<Rightarrow> 'a list \<Rightarrow> error + 'b list" where
  "map_err f [] = Inr []"
| "map_err f (x # xs) =
     (case f x of Inl e \<Rightarrow> Inl e
      | Inr y \<Rightarrow> (case map_err f xs of Inl e \<Rightarrow> Inl e | Inr ys \<Rightarrow> Inr (y # ys)))"

text \<open>The body of the loop when \<^verbatim>\<open>quantize_linear\<close> is false.\<close>

definition run_one ::
  "'p runner \<Rightarrow> target \<Rightarrow> val list \<Rightarrow> (string \<times> val) list \<Rightarrow> val list \<Rightarrow> error + val" where
  "run_one rn tgt args kwargs inp =
     (case tree_unflatten args kwargs (tensors_to_cuda inp) of
        (cur_args, cur_kwargs) \<Rightarrow> exec rn tgt cur_args cur_kwargs)"

text \<open>
  \<^verbatim>\<open>call_function\<close> on a node that is not quantized, which is also every call with
  \<^verbatim>\<open>skip_quant=True\<close>: one output per tuple of \<^verbatim>\<open>transposed_args\<close>, wrapped
  in a \<^verbatim>\<open>MultiInput\<close> if an argument was one.
\<close>

definition call_plain ::
  "'p runner \<Rightarrow> target \<Rightarrow> val list \<Rightarrow> (string \<times> val) list \<Rightarrow> error + val" where
  "call_plain rn tgt args kwargs =
     (let flat_args = flat_args_of args kwargs
      in bind_err (map_err (run_one rn tgt args kwargs) (transposed_args flat_args)) (\<lambda>outputs.
         Inr (if list_ex is_MultiInput flat_args then MultiInput outputs else outputs ! 0)))"

subsection \<open>The test for a quantization target (lines 354 to 360)\<close>

text \<open>
  The value of \<^verbatim>\<open>quantize_linear\<close>. When the source's boolean is true the result
  carries what the branch then reads: the quantization mode, the name of the parameter in
  \<^verbatim>\<open>id_to_name\<close> and the weight; \<open>None\<close> is the source's \<^verbatim>\<open>False\<close>.
  \<^verbatim>\<open>args[1]\<close> is read only for a linear target, and the mode only after the two
  tests before it.
\<close>

definition quantize_linear ::
  "'p runner \<Rightarrow> target \<Rightarrow> val list \<Rightarrow> bool
     \<Rightarrow> error + ('p quantization_mode \<times> string \<times> tensor) option" where
  "quantize_linear rn tgt args skip_quant =
     (if tgt \<noteq> aten_linear_default then Inr None
      else if length args < 2 then Inl IndexError
      else case args ! 1 of
             Param i Wt \<Rightarrow>
               (case id_to_name rn i of
                  None \<Rightarrow> Inr None
                | Some name \<Rightarrow>
                    if skip_quant then Inr None
                    else case qmode rn of
                           None \<Rightarrow> Inl AttributeError
                         | Some qm \<Rightarrow>
                             (case skip_layer_func qm of
                                None \<Rightarrow> Inr (Some (qm, name, Wt))
                              | Some skip \<Rightarrow>
                                  if skip Wt then Inr None else Inr (Some (qm, name, Wt))))
           | _ \<Rightarrow> Inr None)"

subsection \<open>Hessian accumulation (lines 362 to 383)\<close>

fun tensor_of :: "val \<Rightarrow> tensor option" where
  "tensor_of (Tensor t) = Some t"
| "tensor_of (Param i t) = Some t"
| "tensor_of _ = None"

text \<open>
  \<^verbatim>\<open>x.reshape(-1, k)\<close> as the list of its rows. With \<open>k = 0\<close> the first dimension
  cannot be inferred and torch raises.
\<close>

definition reshape_rows :: "tensor \<Rightarrow> nat \<Rightarrow> error + matrix" where
  "reshape_rows x k =
     (if k = 0 then Inl RuntimeError
      else Inr (map (\<lambda>i. take k (drop (i * k) (data x))) [0..<length (data x) div k]))"

text \<open>\<^verbatim>\<open>X.t()\<close> of a matrix with \<open>k\<close> columns.\<close>

definition t_rows :: "nat \<Rightarrow> matrix \<Rightarrow> matrix" where
  "t_rows k X = map (\<lambda>a. map (\<lambda>row. row ! a) X) [0..<k]"

text \<open>\<^verbatim>\<open>x.matmul(x.t())\<close>\<close>

definition matmul_t :: "matrix \<Rightarrow> matrix" where
  "matmul_t A = map (\<lambda>a. map (\<lambda>b. dot a b) A) A"

text \<open>
  \<open>H\<close> starts as the Python number \<open>0\<close>, here \<open>None\<close>, and becomes a tensor with the
  first \<^verbatim>\<open>H += ...\<close>. \<^verbatim>\<open>H *= c\<close>:
\<close>

definition scale_H :: "real \<Rightarrow> matrix option \<Rightarrow> matrix option" where
  "scale_H c H = map_option (map (map (\<lambda>h. h * c))) H"

text \<open>
  \<^verbatim>\<open>H += B\<close>: in place on a tensor \<open>H\<close>, so \<open>B\<close> must have the shape of \<open>H\<close>
  or be a \<open>1 \<times> 1\<close> matrix, which is broadcast.
\<close>

definition add_H :: "matrix option \<Rightarrow> matrix \<Rightarrow> error + matrix option" where
  "add_H H B =
     (case H of
        None \<Rightarrow> Inr (Some B)
      | Some A \<Rightarrow>
          if length A = length B
          then Inr (Some (map2 (map2 (+)) A B))
          else if length B = 1
          then Inr (Some (map (map (\<lambda>a. a + B ! 0 ! 0)) A))
          else Inl RuntimeError)"

text \<open>
  One pass through the loop body for a quantization target: \<open>cur_args\<close> are the positional
  arguments of this sample, the state is \<^verbatim>\<open>(H, total_batches)\<close>.
\<close>

definition hessian_step ::
  "'p quantization_mode \<Rightarrow> val list \<Rightarrow> matrix option \<times> nat \<Rightarrow> error + matrix option \<times> nat" where
  "hessian_step qm cur_args s =
     (case s of (H, total_batches) \<Rightarrow>
      case tensor_of (cur_args ! 0) of
        None \<Rightarrow> Inl AttributeError
      | Some x0 \<Rightarrow>
          let x = (case act_fake_quant_func qm of None \<Rightarrow> x0 | Some f \<Rightarrow> f x0);
              shp = shape x
          in if shp = [] then Inl IndexError
             else
               let n = (if length shp = 2 then 1 else shp ! 0)
               in if total_batches + n = 0 then Inl ZeroDivisionError
                  else
                    let H = scale_H (real total_batches / real (total_batches + n)) H;
                        total_batches = total_batches + n
                    in bind_err (reshape_rows x (last shp)) (\<lambda>X.
                       let xs = map (map (\<lambda>v. sqrt (2 / real total_batches) * v))
                                  (t_rows (last shp) X)
                       in bind_err (add_H H (matmul_t xs)) (\<lambda>H. Inr (H, total_batches))))"

definition accumulate_hessian ::
  "'p quantization_mode \<Rightarrow> val list \<Rightarrow> (string \<times> val) list \<Rightarrow> val list list
     \<Rightarrow> error + matrix option \<times> nat" where
  "accumulate_hessian qm args kwargs tr =
     fold_err (\<lambda>inp. hessian_step qm (fst (tree_unflatten args kwargs (tensors_to_cuda inp))))
       tr (None, 0)"


subsection \<open>The quantized node (lines 394 to 465)\<close>

text \<open>\<^verbatim>\<open>name.split(".")\<close> and \<^verbatim>\<open>".".join(parts)\<close>\<close>

fun split_dot :: "string \<Rightarrow> string list" where
  "split_dot [] = [[]]"
| "split_dot (c # cs) =
     (if c = CHR ''.'' then [] # split_dot cs
      else (case split_dot cs of p # ps \<Rightarrow> (c # p) # ps | [] \<Rightarrow> [[c]]))"

fun join_dot :: "string list \<Rightarrow> string" where
  "join_dot [] = []"
| "join_dot [p] = p"
| "join_dot (p # q # ps) = p @ ''.'' @ join_dot (q # ps)"

text \<open>\<^verbatim>\<open>".".join(name.split(".")[:-1])\<close>\<close>

definition mod_fqn_of :: "string \<Rightarrow> string" where
  "mod_fqn_of name = join_dot (butlast (split_dot name))"

text \<open>Lines 405 to 411: the entries of the layer in \<^verbatim>\<open>new_state_dict\<close>.\<close>

definition update_state_dict ::
  "string \<Rightarrow> val list \<Rightarrow> (string \<times> val) list \<Rightarrow> (string \<rightharpoonup> val) \<Rightarrow> (string \<rightharpoonup> val)" where
  "update_state_dict mod_fqn args names_and_values_dict sd =
     (let sd = sd(mod_fqn @ ''.weight'' := None);
          sd = (if length args > 2 then sd(mod_fqn @ ''.bias'' \<mapsto> args ! 2) else sd)
      in fold (\<lambda>(name, value) sd. sd(mod_fqn @ ''.'' @ name \<mapsto> value))
           names_and_values_dict sd)"

text \<open>
  The diagnostics of the \<^verbatim>\<open>debug\<close> branch are printed and dropped; what the model
  keeps of them is whether they raise. \<^verbatim>\<open>SQNR(x, y)\<close> forms \<^verbatim>\<open>x - y\<close>,
  which needs shapes that broadcast.
\<close>

definition broadcastable :: "nat list \<Rightarrow> nat list \<Rightarrow> bool" where
  "broadcastable a b = list_all (\<lambda>(x, y). x = y \<or> x = 1 \<or> y = 1) (zip (rev a) (rev b))"

definition SQNR :: "tensor \<Rightarrow> tensor \<Rightarrow> error + unit" where
  "SQNR x y = (if broadcastable (shape x) (shape y) then Inr () else Inl RuntimeError)"

text \<open>\<^verbatim>\<open>v.values\<close>: only a \<^verbatim>\<open>MultiInput\<close> has a list there.\<close>

fun values_of :: "val \<Rightarrow> error + val list" where
  "values_of (MultiInput vs) = Inr vs"
| "values_of (Object s) = Inl AttributeError"
| "values_of _ = Inl TypeError"

text \<open>
  \<^verbatim>\<open>torch.cat([SQNR(old.cpu(), new.cpu()).unsqueeze(0) for (old, new) in zip(olds, news)]).mean()\<close>;
  \<^verbatim>\<open>torch.cat\<close> raises on the empty list.
\<close>

definition sqnr_report :: "val list \<Rightarrow> val list \<Rightarrow> error + unit" where
  "sqnr_report olds news =
     bind_err (map_err (\<lambda>(old, new). case (tensor_of old, tensor_of new) of
                                        (Some a, Some b) \<Rightarrow> SQNR a b
                                      | _ \<Rightarrow> Inl AttributeError) (zip olds news))
       (\<lambda>rs. if rs = [] then Inl RuntimeError else Inr ())"

text \<open>\<^verbatim>\<open>args[0][:2]\<close>\<close>

fun first_two :: "val \<Rightarrow> error + val" where
  "first_two (MultiInput vs) = Inr (MultiInput (take 2 vs))"
| "first_two (Object s) = Inl TypeError"
| "first_two v =
     (case tensor_of v of
        None \<Rightarrow> Inl TypeError
      | Some t \<Rightarrow>
          (case shape t of
             [] \<Rightarrow> Inl IndexError
           | s0 # rest \<Rightarrow>
               Inr (Tensor \<lparr>shape = min 2 s0 # rest,
                            data = take (min 2 s0 * prod_list rest) (data t)\<rparr>)))"

text \<open>
  Lines 418 to 464. \<open>Wt\<close> is the weight as \<^verbatim>\<open>call_function\<close> holds it; for a
  float32 weight \<^verbatim>\<open>faster_quant\<close> has updated that tensor in place, which only
  these diagnostics could see.
\<close>

definition debug_report ::
  "'p runner \<Rightarrow> 'p quantization_mode \<Rightarrow> target \<Rightarrow> val list \<Rightarrow> (string \<times> val) list
     \<Rightarrow> tensor \<Rightarrow> tensor \<Rightarrow> tensor \<Rightarrow> 'p \<Rightarrow> val \<Rightarrow> error + unit" where
  "debug_report rn qm tgt args kwargs Wt Q DQt qparams new_out =
     bind_err (first_two (args ! 0)) (\<lambda>a0.
     bind_err (call_plain rn tgt (a0 # args ! 1 # drop 2 args) kwargs) (\<lambda>old_out.
     bind_err (SQNR DQt (to_orig_dtype rn (dequantize_func qm Q qparams))) (\<lambda>_.
     bind_err (SQNR Wt DQt) (\<lambda>_.
     bind_err (values_of old_out) (\<lambda>olds.
     bind_err (values_of new_out) (\<lambda>news.
     bind_err (sqnr_report olds (take 2 news)) (\<lambda>_.
     case get_qparams_func qm of
       None \<Rightarrow> Inl TypeError
     | Some gq \<Rightarrow>
         let qparams2 = gq Wt;
             Q2 = quantize_func qm Wt qparams2;
             DQ2 = to_orig_dtype rn (dequantize_func qm Q2 qparams2)
         in bind_err (call_plain rn tgt (a0 # Tensor DQ2 # drop 2 args) kwargs) (\<lambda>old_q_out.
            bind_err (values_of old_q_out) (\<lambda>old_qs.
            sqnr_report olds old_qs)))))))))"

text \<open>
  Lines 362 to 465 for a quantization target with mode \<open>qm\<close>, parameter name \<open>name\<close> and
  weight \<open>Wt\<close>. With no sample \<open>H\<close> is still the number \<open>0\<close>, which has no
  \<^verbatim>\<open>device\<close>. The result is \<^verbatim>\<open>new_out\<close>, the node evaluated with
  \<^verbatim>\<open>DQ\<close> in place of the weight.
\<close>

definition quantize_node ::
  "'p runner \<Rightarrow> 'p quantization_mode \<Rightarrow> string \<Rightarrow> tensor \<Rightarrow> target \<Rightarrow> val list
     \<Rightarrow> (string \<times> val) list \<Rightarrow> (error + val) \<times> 'p runner" where
  "quantize_node rn qm name Wt tgt args kwargs =
     (let flat_args = flat_args_of args kwargs
      in case bind_err (accumulate_hessian qm args kwargs (transposed_args flat_args))
                (\<lambda>(H, total_batches). case H of
                     None \<Rightarrow> Inl AttributeError
                   | Some H \<Rightarrow> faster_quant rn H Wt) of
           Inl e \<Rightarrow> (Inl e, rn)
         | Inr (Q, DQt, qparams) \<Rightarrow>
             let names_and_values_dict = make_names_and_values_dict_func qm Q qparams;
                 rn = rn\<lparr>new_state_dict :=
                          update_state_dict (mod_fqn_of name) args names_and_values_dict
                            (new_state_dict rn)\<rparr>
             in case call_plain rn tgt (args ! 0 # Tensor DQt # drop 2 args) kwargs of
                  Inl e \<Rightarrow> (Inl e, rn)
                | Inr new_out \<Rightarrow>
                    if debug rn
                    then (case debug_report rn qm tgt args kwargs Wt Q DQt qparams new_out of
                            Inl e \<Rightarrow> (Inl e, rn)
                          | Inr _ \<Rightarrow> (Inr new_out, rn))
                    else (Inr new_out, rn))"

text \<open>
  \<^verbatim>\<open>call_function(target, args, kwargs, skip_quant)\<close>: the value it returns or the
  exception it raises, and the runner afterwards.
\<close>

definition call_function ::
  "'p runner \<Rightarrow> target \<Rightarrow> val list \<Rightarrow> (string \<times> val) list \<Rightarrow> bool
     \<Rightarrow> (error + val) \<times> 'p runner" where
  "call_function rn tgt args kwargs skip_quant =
     (case quantize_linear rn tgt args skip_quant of
        Inl e \<Rightarrow> (Inl e, rn)
      | Inr None \<Rightarrow> (call_plain rn tgt args kwargs, rn)
      | Inr (Some (qm, name, Wt)) \<Rightarrow> quantize_node rn qm name Wt tgt args kwargs)"

section \<open>The runner: construction, \<^verbatim>\<open>run\<close> and the result\<close>

text \<open>
  \<^verbatim>\<open>__init__\<close>, given what tracing and the model provide: the named parameters with
  the \<^verbatim>\<open>id\<close> of each, the traced graph and the state dict.
\<close>

definition init ::
  "(string \<times> nat) list \<Rightarrow> node list \<Rightarrow> (string \<rightharpoonup> val) \<Rightarrow> val list \<Rightarrow> int \<Rightarrow> real \<Rightarrow> int
     \<Rightarrow> (real \<Rightarrow> real) \<Rightarrow> (target \<Rightarrow> val list \<Rightarrow> (string \<times> val) list \<Rightarrow> error + val)
     \<Rightarrow> 'p runner" where
  "init named_parameters traced state_dict inps bs pd gs cast ex =
     \<lparr>id_to_name = map_of (rev (map (\<lambda>(name, i). (i, name)) named_parameters)),
      graph = traced, new_state_dict = state_dict,
      blocksize = bs, percdamp = pd, groupsize = gs, inputs = inps,
      gptq_done = False, debug = True, qmode = None,
      orig_dtype = cast, exec = ex\<rparr>"

definition configure_quantization_mode :: "'p runner \<Rightarrow> 'p quantization_mode \<Rightarrow> 'p runner" where
  "configure_quantization_mode rn qm = rn\<lparr>qmode := Some qm\<rparr>"

text \<open>
  \<^verbatim>\<open>torch.fx.Interpreter.run\<close>: the nodes in order, with the environment of the
  values computed so far and the inputs not yet taken by a placeholder. Each
  \<^verbatim>\<open>call_function\<close> node goes through the runner's \<^verbatim>\<open>call_function\<close>.
\<close>

definition load_arg :: "(string \<rightharpoonup> val) \<Rightarrow> arg \<Rightarrow> error + val" where
  "load_arg env a =
     (case a of Const v \<Rightarrow> Inr v
      | Ref n \<Rightarrow> (case env n of None \<Rightarrow> Inl RuntimeError | Some v \<Rightarrow> Inr v))"

fun interp ::
  "'p runner \<Rightarrow> node list \<Rightarrow> (string \<rightharpoonup> val) \<Rightarrow> val list \<Rightarrow> (error + val) \<times> 'p runner" where
  "interp rn [] env ins = (Inr (Object ''None''), rn)"
| "interp rn (Placeholder n # ns) env ins =
     (case ins of [] \<Rightarrow> (Inl RuntimeError, rn)
      | v # vs \<Rightarrow> interp rn ns (env(n \<mapsto> v)) vs)"
| "interp rn (CallFunction n tgt as kws # ns) env ins =
     (case map_err (load_arg env) as of
        Inl e \<Rightarrow> (Inl e, rn)
      | Inr args \<Rightarrow>
          (case map_err (\<lambda>(k, a). map_sum id (Pair k) (load_arg env a)) kws of
             Inl e \<Rightarrow> (Inl e, rn)
           | Inr kwargs \<Rightarrow>
               (case call_function rn tgt args kwargs False of
                  (Inl e, rn') \<Rightarrow> (Inl e, rn')
                | (Inr v, rn') \<Rightarrow> interp rn' ns (env(n \<mapsto> v)) ins)))"
| "interp rn (Output a # ns) env ins = (load_arg env a, rn)"

text \<open>
  \<^verbatim>\<open>run()\<close>: the exception it raises, if any, and the runner afterwards. Reading
  \<^verbatim>\<open>self.get_qparams_func\<close> of a runner that was never configured raises, and the
  assertion fails when the attribute is \<^verbatim>\<open>None\<close>.
\<close>

definition run :: "'p runner \<Rightarrow> error option \<times> 'p runner" where
  "run rn =
     (case qmode rn of
        None \<Rightarrow> (Some AttributeError, rn)
      | Some qm \<Rightarrow>
          if get_qparams_func qm = None then (Some AssertionError, rn)
          else
            let rn = rn\<lparr>gptq_done := True\<rparr>
            in case interp rn (graph rn) Map.empty (inputs rn) of
                 (Inl e, rn') \<Rightarrow> (Some e, rn')
               | (Inr v, rn') \<Rightarrow> (None, rn'))"

text \<open>\<^verbatim>\<open>sub in s\<close> for strings\<close>

fun contains :: "string \<Rightarrow> string \<Rightarrow> bool" where
  "contains sub [] = (sub = [])"
| "contains sub (c # cs) = (take (length sub) (c # cs) = sub \<or> contains sub cs)"

text \<open>
  \<^verbatim>\<open>get_quantized_state_dict()\<close>: the mapping it returns or the exception, and the
  runner afterwards (the entries are removed from \<^verbatim>\<open>new_state_dict\<close> itself).
\<close>

definition get_quantized_state_dict ::
  "'p runner \<Rightarrow> (error + (string \<rightharpoonup> val)) \<times> 'p runner" where
  "get_quantized_state_dict rn =
     (if \<not> gptq_done rn then (Inl AssertionError, rn)
      else
        let quantized_state_dict =
              (\<lambda>param_fqn. if contains ''kv_cache'' param_fqn then None
                           else new_state_dict rn param_fqn)
        in (Inr quantized_state_dict, rn\<lparr>new_state_dict := quantized_state_dict\<rparr>))"

section \<open>Concrete runners for the closed theorems\<close>

text \<open>
  \<^verbatim>\<open>F.linear(x, w)\<close> without bias, for \<open>w\<close> of shape \<open>[out, k]\<close> and \<open>x\<close> with
  last dimension \<open>k\<close>, and the elementwise sum of two tensors of one shape.
\<close>

definition linear :: "tensor \<Rightarrow> tensor \<Rightarrow> tensor" where
  "linear x w =
     (let k = last (shape x); out = shape w ! 0
      in \<lparr>shape = butlast (shape x) @ [out],
          data = concat (map (\<lambda>i. map (\<lambda>oc. dot (take k (drop (i * k) (data x)))
                                               (take k (drop (oc * k) (data w)))) [0..<out])
                           [0..<length (data x) div k])\<rparr>)"

definition add :: "tensor \<Rightarrow> tensor \<Rightarrow> tensor" where
  "add x y = x\<lparr>data := map2 (+) (data x) (data y)\<rparr>"

text \<open>An interpretation of targets: \<^verbatim>\<open>aten.linear\<close> and \<^verbatim>\<open>aten.add\<close> on two tensors.\<close>

definition aten_exec :: "target \<Rightarrow> val list \<Rightarrow> (string \<times> val) list \<Rightarrow> error + val" where
  "aten_exec tgt args kwargs =
     (if length args \<noteq> 2 then Inl TypeError
      else case (tensor_of (args ! 0), tensor_of (args ! 1)) of
             (Some x, Some y) \<Rightarrow>
               if tgt = aten_linear_default then Inr (Tensor (linear x y))
               else if tgt = aten_op ''add'' then Inr (Tensor (add x y))
               else Inl RuntimeError
           | _ \<Rightarrow> Inl TypeError)"

text \<open>A weight with one row and one column, and a sample with one row.\<close>

definition scalar_weight :: "real \<Rightarrow> tensor" where
  "scalar_weight w = \<lparr>shape = [1, 1], data = [w]\<rparr>"

definition sample :: "real list \<Rightarrow> val" where
  "sample xs = Tensor \<lparr>shape = [1, length xs], data = xs\<rparr>"

text \<open>
  A model with the single layer \<^verbatim>\<open>fc\<close>, whose weight \<open>33 / 32\<close> is the parameter
  object \<open>0\<close>, traced to one linear node, with two calibration samples. The runner after
  \<^verbatim>\<open>__init__\<close> with \<^verbatim>\<open>percdamp = 3\<close>, for a group size and a rounding to
  the dtype of the weights.
\<close>

definition fc_graph :: "node list" where
  "fc_graph = [Placeholder ''x'',
     CallFunction ''y'' aten_linear_default
       [Ref ''x'', Const (Param 0 (scalar_weight (33 / 32)))] [],
     Output (Ref ''y'')]"

definition fc_runner :: "int \<Rightarrow> (real \<Rightarrow> real) \<Rightarrow> real runner" where
  "fc_runner gs cast = init [(''fc.weight'', 0)] fc_graph
     [''fc.weight'' \<mapsto> Tensor (scalar_weight (33 / 32))]
     [MultiInput [sample [1], sample [1]]] 128 3 gs cast aten_exec"

definition fresh_runner :: "real runner" where
  "fresh_runner = fc_runner 128 (\<lambda>x. x)"

text \<open>A quantization mode configured with \<^verbatim>\<open>get_qparams_func=None\<close>.\<close>

definition no_qparams_mode :: "real quantization_mode" where
  "no_qparams_mode = \<lparr>get_qparams_func = None, quantize_func = (\<lambda>t qp. t),
     dequantize_func = (\<lambda>t qp. t), combine_qparams_list_func = sum_list,
     make_names_and_values_dict_func = (\<lambda>q qp. []), skip_layer_func = None,
     act_fake_quant_func = None\<rparr>"

text \<open>
  A quantization mode on a fixed grid of step \<open>5 / 512\<close>: quantize divides by the step and
  rounds down, dequantize multiplies by the step.
\<close>

definition floor_mode :: "real quantization_mode" where
  "floor_mode = \<lparr>get_qparams_func = Some (\<lambda>t. 5 / 512),
     quantize_func = (\<lambda>t s. t\<lparr>data := map (\<lambda>x. of_int \<lfloor>x / s\<rfloor>) (data t)\<rparr>),
     dequantize_func = (\<lambda>t s. t\<lparr>data := map (\<lambda>q. q * s) (data t)\<rparr>),
     combine_qparams_list_func = hd,
     make_names_and_values_dict_func = (\<lambda>q s. [(''weight'', Tensor q)]),
     skip_layer_func = None, act_fake_quant_func = None\<rparr>"

text \<open>Two batches of unequal lengths for an \<^verbatim>\<open>aten.add\<close> node.\<close>

definition two_batches :: "val list" where
  "two_batches = [MultiInput [sample [1], sample [2]],
                  MultiInput [sample [10], sample [20], sample [30]]]"

text \<open>
  Two runners with whole-tensor groups. The first is for bfloat16 weights between 1 and 2,
  where the bfloat16 values are the multiples of \<open>1 / 128\<close>; the second is for float32
  weights.
\<close>

definition bfloat16_runner :: "real runner" where
  "bfloat16_runner = configure_quantization_mode
     (fc_runner (- 1) (\<lambda>x. of_int (round (x * 128)) / 128)) floor_mode"

definition float32_runner :: "real runner" where
  "float32_runner = configure_quantization_mode (fc_runner (- 1) (\<lambda>x. x)) floor_mode"

text \<open>
  The arguments of the linear node of \<open>fc_graph\<close>, a quantization mode that skips every
  layer with its runner, and the runner after the layer \<^verbatim>\<open>fc\<close> was quantized.
\<close>

definition fc_args :: "val list" where
  "fc_args = [MultiInput [sample [1], sample [1]], Param 0 (scalar_weight (33 / 32))]"

definition skip_mode :: "real quantization_mode" where
  "skip_mode = floor_mode\<lparr>skip_layer_func := Some (\<lambda>w. True)\<rparr>"

definition skip_runner :: "real runner" where
  "skip_runner = configure_quantization_mode (fc_runner (- 1) (\<lambda>x. x)) skip_mode"

definition quantized_runner :: "real runner" where
  "quantized_runner = float32_runner\<lparr>new_state_dict :=
      [''fc.weight'' \<mapsto> Tensor (scalar_weight 105)]\<rparr>"

text \<open>
  The entry of a name in the mapping that \<^verbatim>\<open>get_quantized_state_dict\<close> returned.
\<close>

definition entry_of ::
  "string \<Rightarrow> (error + (string \<rightharpoonup> val)) \<times> 'p runner \<Rightarrow> error + val option" where
  "entry_of name r = (case fst r of Inl e \<Rightarrow> Inl e | Inr sd \<Rightarrow> Inr (sd name))"

section \<open>Notions for the statements\<close>

text \<open>
  The global columns from \<open>a\<close> up to \<open>b\<close> at which the test of line 509 holds: the
  columns where a new group starts.
\<close>

definition group_starts :: "int \<Rightarrow> nat \<Rightarrow> nat \<Rightarrow> nat list" where
  "group_starts gs a b = filter (\<lambda>c. gs \<noteq> - 1 \<and> int c mod gs = 0) [a..<b]"

text \<open>A list of \<open>n\<close> columns of \<open>r\<close> entries each.\<close>

definition columns_ok :: "nat \<Rightarrow> nat \<Rightarrow> real list list \<Rightarrow> bool" where
  "columns_ok r n cs \<longleftrightarrow> length cs = n \<and> list_all (\<lambda>c. length c = r) cs"

text \<open>The three local tensors of a block of \<open>n\<close> columns have their shapes.\<close>

definition block_ok :: "nat \<Rightarrow> nat \<Rightarrow> 'p block_state \<Rightarrow> bool" where
  "block_ok r n st \<longleftrightarrow> columns_ok r n (W1 st) \<and> columns_ok r n (DQ1 st) \<and> columns_ok r n (Err1 st)"

text \<open>
  The qparams of the groups that start from column \<open>a\<close> up to column \<open>b\<close>, computed
  from the outer weight with columns \<open>Wcols\<close>.
\<close>

definition started :: "'p runner \<Rightarrow> (tensor \<Rightarrow> 'p) \<Rightarrow> nat \<Rightarrow> real list list \<Rightarrow> nat \<Rightarrow> nat \<Rightarrow> 'p list" where
  "started rn gq r Wcols a b = map (\<lambda>c. gq (group_slice rn r Wcols c)) (group_starts (groupsize rn) a b)"

text \<open>
  The two qparams variables after the columns from \<open>a\<close> up to \<open>b\<close>, when they were
  \<open>cur0\<close> and \<open>all0\<close> before column \<open>a\<close>.
\<close>

definition groups_ok ::
  "'p runner \<Rightarrow> (tensor \<Rightarrow> 'p) \<Rightarrow> nat \<Rightarrow> real list list \<Rightarrow> 'p option \<Rightarrow> 'p list \<Rightarrow> nat \<Rightarrow> nat
     \<Rightarrow> 'p block_state \<Rightarrow> bool" where
  "groups_ok rn gq r Wcols cur0 all0 a b st \<longleftrightarrow>
     all_qparams st = all0 @ started rn gq r Wcols a b \<and>
     cur_qparams st = (if started rn gq r Wcols a b = [] then cur0
                        else Some (last (started rn gq r Wcols a b)))"

text \<open>
  The outer state after the columns below \<open>p\<close>: shapes, and one entry of
  \<^verbatim>\<open>all_qparams\<close> per group started.
\<close>

definition state_ok :: "'p runner \<Rightarrow> nat \<Rightarrow> nat \<Rightarrow> nat \<Rightarrow> 'p quant_state \<Rightarrow> bool" where
  "state_ok rn r c p s \<longleftrightarrow>
     columns_ok r c (Wc s) \<and> columns_ok r c (DQc s) \<and>
     length (groups s) = length (group_starts (groupsize rn) 0 p)"

text \<open>The matrix \<open>c\<close> times the identity, and its rows.\<close>

definition unit_row :: "nat \<Rightarrow> nat \<Rightarrow> real \<Rightarrow> real list" where
  "unit_row n i c = (replicate n 0)[i := c]"

definition scaled_identity :: "nat \<Rightarrow> real \<Rightarrow> matrix" where
  "scaled_identity n c = map (\<lambda>i. unit_row n i c) [0..<n]"

text \<open>
  Lines 515 and 519 on one column: the column quantized and dequantized with the qparams
  \<open>qp\<close>.
\<close>

definition round_trip :: "'p quantization_mode \<Rightarrow> 'p \<Rightarrow> real list \<Rightarrow> real list" where
  "round_trip qm qp w = dequantize_column qm qp (quantize_column qm qp w)"

text \<open>The first column of the group of column \<open>j\<close>, for a group size \<open>gs > 0\<close>.\<close>

definition current_group :: "int \<Rightarrow> nat \<Rightarrow> nat" where
  "current_group gs j = (j div nat gs) * nat gs"

text \<open>
  The qparams of the group of column \<open>j\<close>, computed by \<open>gq\<close> from the group's columns of
  a weight with columns \<open>Wcols\<close>; with whole-tensor groups, \<open>gq\<close> of \<open>Wt\<close>.
\<close>

definition qparams_at :: "'p runner \<Rightarrow> (tensor \<Rightarrow> 'p) \<Rightarrow> tensor \<Rightarrow> real list list \<Rightarrow> nat \<Rightarrow> 'p" where
  "qparams_at rn gq Wt Wcols j =
     (if groupsize rn = - 1 then gq Wt
      else gq (group_slice rn (shape Wt ! 0) Wcols (current_group (groupsize rn) j)))"

text \<open>
  The variable \<^verbatim>\<open>cur_qparams\<close> after the columns below \<open>p\<close>, when every group took
  its qparams from \<open>Wcols\<close>.
\<close>

definition cur_at ::
  "'p runner \<Rightarrow> (tensor \<Rightarrow> 'p) \<Rightarrow> tensor \<Rightarrow> real list list \<Rightarrow> nat \<Rightarrow> 'p option" where
  "cur_at rn gq Wt Wcols p =
     (if groupsize rn = - 1 then Some (gq Wt)
      else if p = 0 then None else Some (qparams_at rn gq Wt Wcols (p - 1)))"

text \<open>
  The state of the inner loop before local column \<open>i\<close> of the block at \<open>i1\<close>, when nothing
  was fed back into the columns still to come: they are those of \<open>W0\<close>, and the columns
  done are quantized and dequantized columns of \<open>W0\<close>.
\<close>

definition block_inv ::
  "'p runner \<Rightarrow> 'p quantization_mode \<Rightarrow> (tensor \<Rightarrow> 'p) \<Rightarrow> tensor \<Rightarrow> real list list \<Rightarrow> nat \<Rightarrow> nat
     \<Rightarrow> nat \<Rightarrow> 'p block_state \<Rightarrow> bool" where
  "block_inv rn qm gq Wt W0 i1 n i st \<longleftrightarrow>
     length (W1 st) = n \<and> length (DQ1 st) = n \<and>
     (\<forall>j. i \<le> j \<and> j < n \<longrightarrow> W1 st ! j = W0 ! (i1 + j)) \<and>
     (\<forall>j < i. DQ1 st ! j = round_trip qm (qparams_at rn gq Wt W0 (i1 + j)) (W0 ! (i1 + j))) \<and>
     cur_qparams st = cur_at rn gq Wt W0 (i1 + i) \<and>
     all_qparams st = started rn gq (shape Wt ! 0) W0 0 (i1 + i)"

text \<open>The same for the outer loop, before column \<open>p\<close>.\<close>

definition quant_inv ::
  "'p runner \<Rightarrow> 'p quantization_mode \<Rightarrow> (tensor \<Rightarrow> 'p) \<Rightarrow> tensor \<Rightarrow> real list list \<Rightarrow> nat \<Rightarrow> nat
     \<Rightarrow> 'p quant_state \<Rightarrow> bool" where
  "quant_inv rn qm gq Wt W0 c p s \<longleftrightarrow>
     Wc s = W0 \<and> length (DQc s) = c \<and>
     (\<forall>j < p. DQc s ! j = round_trip qm (qparams_at rn gq Wt W0 j) (W0 ! j)) \<and>
     cur s = cur_at rn gq Wt W0 p \<and>
     groups s = started rn gq (shape Wt ! 0) W0 0 p"

text \<open>
  The list \<^verbatim>\<open>all_qparams\<close> of \<^verbatim>\<open>faster_quant(H, W)\<close> after line 539, before line 545
  combines it.
\<close>

definition faster_quant_all_qparams :: "'p runner \<Rightarrow> matrix \<Rightarrow> tensor \<Rightarrow> error + 'p list" where
  "faster_quant_all_qparams rn H Wt =
     (case qmode rn of
        None \<Rightarrow> Inl AttributeError
      | Some qm \<Rightarrow>
          (case get_qparams_func qm of
             None \<Rightarrow> Inl TypeError
           | Some gq \<Rightarrow> bind_err (faster_quant_groups rn qm gq H Wt) (\<lambda>(cs, qs). Inr qs)))"

text \<open>A weight with one row.\<close>

definition row_weight :: "real list \<Rightarrow> tensor" where
  "row_weight ws = \<lparr>shape = [1, length ws], data = ws\<rparr>"

text \<open>
  A quantization mode for groups of \<open>g\<close> columns whose qparams are lists of scales, one per
  group. The scale of a group is a quarter of the largest absolute value in it; quantize
  divides by the scale of the column's group and rounds down, dequantize multiplies by it;
  a list with one scale applies to every column, as in the calls on one column. The
  per-group lists are combined by concatenation.
\<close>

definition absmax :: "real list \<Rightarrow> real" where
  "absmax xs = fold (\<lambda>x m. max \<bar>x\<bar> m) xs 0"

definition scale_for :: "nat \<Rightarrow> real list \<Rightarrow> nat \<Rightarrow> real" where
  "scale_for g qp j = (if length qp = 1 then qp ! 0 else qp ! (j div g))"

definition absmax_qparams :: "tensor \<Rightarrow> real list" where
  "absmax_qparams t = [absmax (data t) / 4]"

definition absmax_mode :: "nat \<Rightarrow> real list quantization_mode" where
  "absmax_mode g = \<lparr>get_qparams_func = Some absmax_qparams,
     quantize_func = (\<lambda>t qp. t\<lparr>data :=
        map (\<lambda>k. of_int \<lfloor>data t ! k / scale_for g qp (k mod (shape t ! 1))\<rfloor>)
          [0..<length (data t)]\<rparr>),
     dequantize_func = (\<lambda>t qp. t\<lparr>data :=
        map (\<lambda>k. data t ! k * scale_for g qp (k mod (shape t ! 1))) [0..<length (data t)]\<rparr>),
     combine_qparams_list_func = concat,
     make_names_and_values_dict_func = (\<lambda>q qp. [(''weight'', Tensor q)]),
     skip_layer_func = None, act_fake_quant_func = None\<rparr>"

text \<open>
  A runner with \<^verbatim>\<open>percdamp = 0.01\<close> for float32 weights, with a block size, a group size
  and a quantization mode.
\<close>

definition plain_runner :: "int \<Rightarrow> int \<Rightarrow> 'p quantization_mode \<Rightarrow> 'p runner" where
  "plain_runner bs gs qm =
     configure_quantization_mode (init [] [] Map.empty [] bs (1 / 100) gs (\<lambda>x. x) aten_exec) qm"

text \<open>
  Plain per-group quantization, as the specification words it: the weight is cut into groups
  of \<^verbatim>\<open>groupsize\<close> columns (the last one may be shorter; one group with the whole-tensor
  sentinel), and each group gets its own qparams from its columns of the original weight.
\<close>

definition independent_qparams :: "'p runner \<Rightarrow> (tensor \<Rightarrow> 'p) \<Rightarrow> tensor \<Rightarrow> 'p list" where
  "independent_qparams rn gq Wt =
     (if groupsize rn = - 1 then [gq Wt]
      else map (\<lambda>k. gq (group_slice rn (shape Wt ! 0) (columns_of Wt) (k * nat (groupsize rn))))
             [0..<(shape Wt ! 1 + nat (groupsize rn) - 1) div nat (groupsize rn)])"

text \<open>
  Every column of the original weight quantized, and quantized and dequantized, with the
  qparams of its group; nothing is fed back from one column to another.
\<close>

definition independent_Q ::
  "'p runner \<Rightarrow> 'p quantization_mode \<Rightarrow> (tensor \<Rightarrow> 'p) \<Rightarrow> tensor \<Rightarrow> tensor" where
  "independent_Q rn qm gq Wt =
     from_columns (shape Wt ! 0)
       (map (\<lambda>j. quantize_column qm (qparams_at rn gq Wt (columns_of Wt) j) (column Wt j))
          [0..<shape Wt ! 1])"

definition independent_DQ ::
  "'p runner \<Rightarrow> 'p quantization_mode \<Rightarrow> (tensor \<Rightarrow> 'p) \<Rightarrow> tensor \<Rightarrow> tensor" where
  "independent_DQ rn qm gq Wt =
     from_columns (shape Wt ! 0)
       (map (\<lambda>j. round_trip qm (qparams_at rn gq Wt (columns_of Wt) j) (column Wt j))
          [0..<shape Wt ! 1])"

text \<open>
  The update rule of the Hessian accumulator as the specification words it, on matrices as
  lists of rows: a scalar multiple, the sum of two matrices, the transpose of a matrix with
  \<open>n\<close> columns, and the product of two matrices, the second with \<open>n\<close> columns.
\<close>

definition mat_scale :: "real \<Rightarrow> matrix \<Rightarrow> matrix" where
  "mat_scale c A = map (map (\<lambda>a. c * a)) A"

definition mat_add :: "matrix \<Rightarrow> matrix \<Rightarrow> matrix" where
  "mat_add A B = map (\<lambda>i. map (\<lambda>j. A ! i ! j + B ! i ! j) [0..<length (A ! i)]) [0..<length A]"

definition mat_transpose :: "nat \<Rightarrow> matrix \<Rightarrow> matrix" where
  "mat_transpose n A = map (\<lambda>j. map (\<lambda>i. A ! i ! j) [0..<length A]) [0..<n]"

definition mat_mul :: "nat \<Rightarrow> matrix \<Rightarrow> matrix \<Rightarrow> matrix" where
  "mat_mul n A B =
     map (\<lambda>i. map (\<lambda>j. (\<Sum>l\<leftarrow>[0..<length B]. A ! i ! l * B ! l ! j)) [0..<n]) [0..<length A]"

text \<open>
  The activations of a mini-batch reshaped to a matrix with one row of \<open>in_features\<close> entries
  (the last dimension) per flattened sample.
\<close>

definition sample_rows :: "tensor \<Rightarrow> matrix" where
  "sample_rows x =
     (let k = last (shape x)
      in map (\<lambda>i. map (\<lambda>j. data x ! (i * k + j)) [0..<k]) [0..<length (data x) div k])"

text \<open>
  The number \<open>m\<close> of samples that a mini-batch counts for (line 377): a two-dimensional
  activation is one sample, otherwise the first dimension is the number of samples.
\<close>

definition samples_in :: "tensor \<Rightarrow> nat" where
  "samples_in x = (if length (shape x) = 2 then 1 else shape x ! 0)"

text \<open>
  \<open>new_H = H * (n / (n + m)) + X_scaled * X_scaled\<^sup>T\<close>, where \<open>X_scaled\<close> is the reshaped
  activations, transposed and scaled by \<open>sqrt (2 / (n + m))\<close>.
\<close>

definition new_H_spec :: "matrix \<Rightarrow> nat \<Rightarrow> tensor \<Rightarrow> matrix" where
  "new_H_spec H n x =
     (let m = samples_in x;
          X = sample_rows x;
          X_scaled = mat_scale (sqrt (2 / real (n + m))) (mat_transpose (last (shape x)) X)
      in mat_add (mat_scale (real n / real (n + m)) H)
           (mat_mul (last (shape x)) X_scaled (mat_transpose (length X) X_scaled)))"

text \<open>The accumulator before the first mini-batch, as a matrix.\<close>

definition zero_matrix :: "nat \<Rightarrow> matrix" where
  "zero_matrix k = replicate k (replicate k 0)"

text \<open>
  Entry \<open>(a, b)\<close> of \<open>X\<^sup>T X\<close> for the reshaped activations \<open>X\<close> of a mini-batch: the sum of
  \<open>row[a] * row[b]\<close> over its rows.
\<close>

definition gram :: "tensor \<Rightarrow> nat \<Rightarrow> nat \<Rightarrow> real" where
  "gram x a b = (\<Sum>row\<leftarrow>sample_rows x. row ! a * row ! b)"

text \<open>
  Lines 373 to 375: the activation that is accumulated, and the number of samples that a list
  of mini-batches counts for.
\<close>

definition fake_quantized :: "'p quantization_mode \<Rightarrow> tensor \<Rightarrow> tensor" where
  "fake_quantized qm x0 = (case act_fake_quant_func qm of None \<Rightarrow> x0 | Some f \<Rightarrow> f x0)"

definition samples_seen :: "'p quantization_mode \<Rightarrow> tensor list \<Rightarrow> nat" where
  "samples_seen qm xs = (\<Sum>x\<leftarrow>xs. samples_in (fake_quantized qm x))"

section \<open>Properties\<close>

subsection \<open>Preconditions of \<^verbatim>\<open>run\<close> and \<^verbatim>\<open>get_quantized_state_dict\<close>\<close>

text \<open>
  Claim C9. \<^verbatim>\<open>run()\<close> on a runner whose quantization mode was never configured
  raises where the assertion reads \<^verbatim>\<open>self.get_qparams_func\<close>, and on a runner
  configured with \<^verbatim>\<open>get_qparams_func=None\<close> the assertion fails; in both cases the
  runner is left as it was, so no node of the graph has been visited and
  \<^verbatim>\<open>gptq_done\<close> is still false. \<^verbatim>\<open>get_quantized_state_dict()\<close> raises
  the assertion error as long as \<^verbatim>\<open>gptq_done\<close> is false, returns no mapping and
  leaves the runner as it was. \<^verbatim>\<open>gptq_done\<close> is false after \<^verbatim>\<open>__init__\<close>,
  and \<^verbatim>\<open>configure_quantization_mode\<close> does not change it.
\<close>

theorem run_and_result_preconditions:
  "(qmode rn = None \<longrightarrow> run rn = (Some AttributeError, rn)) \<and>
   (\<forall>qm. qmode rn = Some qm \<and> get_qparams_func qm = None
      \<longrightarrow> run rn = (Some AssertionError, rn)) \<and>
   (\<not> gptq_done rn \<longrightarrow> get_quantized_state_dict rn = (Inl AssertionError, rn)) \<and>
   \<not> gptq_done (init ps g sd ins bs pd gs c ex :: 'p runner) \<and>
   qmode (init ps g sd ins bs pd gs c ex :: 'p runner) = None \<and>
   gptq_done (configure_quantization_mode rn qm') = gptq_done rn"
  by (simp add: run_def get_quantized_state_dict_def init_def configure_quantization_mode_def)

theorem run_and_result_preconditions_witness:
  "qmode fresh_runner = None \<and>
   run fresh_runner = (Some AttributeError, fresh_runner) \<and>
   qmode (configure_quantization_mode fresh_runner no_qparams_mode) = Some no_qparams_mode \<and>
   get_qparams_func no_qparams_mode = None \<and>
   run (configure_quantization_mode fresh_runner no_qparams_mode)
     = (Some AssertionError, configure_quantization_mode fresh_runner no_qparams_mode) \<and>
   \<not> gptq_done fresh_runner \<and>
   get_quantized_state_dict fresh_runner = (Inl AssertionError, fresh_runner) \<and>
   \<not> gptq_done (configure_quantization_mode fresh_runner no_qparams_mode) \<and>
   get_quantized_state_dict (configure_quantization_mode fresh_runner no_qparams_mode)
     = (Inl AssertionError, configure_quantization_mode fresh_runner no_qparams_mode)"
  using run_and_result_preconditions [of fresh_runner]
    run_and_result_preconditions [of "configure_quantization_mode fresh_runner no_qparams_mode"]
  by (simp add: fresh_runner_def fc_runner_def init_def configure_quantization_mode_def
      no_qparams_mode_def)

subsection \<open>The final quantization of \<^verbatim>\<open>faster_quant\<close>\<close>

lemma inverse_factor_1: "0 < h \<Longrightarrow> inverse_factor [[h]] = Inr [[sqrt (1 / h)]]"
  by (simp add: inverse_factor_def cholesky_def cholesky_upper_def cholesky_inverse_def
      tri_inv_row_def transpose_mat_def dot_def real_sqrt_divide power2_eq_square [symmetric])

lemma to_orig_dtype_float32: "\<forall>x. orig_dtype rn x = x \<Longrightarrow> to_orig_dtype rn t = t"
  by (simp add: to_orig_dtype_def map_idI)

lemma qmode_bfloat16_runner: "qmode bfloat16_runner = Some floor_mode"
  by (simp add: bfloat16_runner_def configure_quantization_mode_def fc_runner_def init_def)

lemma orig_dtype_bfloat16_runner:
  "orig_dtype bfloat16_runner = (\<lambda>x. of_int (round (x * 128)) / 128)"
  by (simp add: bfloat16_runner_def configure_quantization_mode_def fc_runner_def init_def)

lemma qmode_float32_runner: "qmode float32_runner = Some floor_mode"
  by (simp add: float32_runner_def configure_quantization_mode_def fc_runner_def init_def)

lemma orig_dtype_float32_runner: "orig_dtype float32_runner = (\<lambda>x. x)"
  by (simp add: float32_runner_def configure_quantization_mode_def fc_runner_def init_def)

lemma get_qparams_floor_mode: "get_qparams_func floor_mode = Some (\<lambda>t. 5 / 512)"
  by (simp add: floor_mode_def)

lemma groups_bfloat16_runner:
  "faster_quant_groups bfloat16_runner floor_mode (\<lambda>t. 5 / 512) [[1]] (scalar_weight (33 / 32))
     = Inr ([[525 / 512]], [5 / 512])"
  by (simp add: faster_quant_groups_def bfloat16_runner_def configure_quantization_mode_def
      fc_runner_def init_def is_matrix_def square_def dead_of_def diag_of_def set_dead_diag_def
      zero_dead_columns_def columns_of_def column_def mean_def add_damp_def inverse_factor_1
      damped_hessian_def initial_state_def
      bind_err_def py_range_def block_step_def column_step_def enter_group_def
      start_of_group_def store_column_def column_error_def feed_back_def propagate_block_def
      quantize_column_def dequantize_column_def flatten_def unsqueeze1_def broadcast_column_def
      combine_columns_def floor_mode_def Let_def scalar_weight_def)

lemma groups_float32_runner:
  "0 < h \<Longrightarrow>
   faster_quant_groups float32_runner floor_mode (\<lambda>t. 5 / 512) [[h]] (scalar_weight (33 / 32))
     = Inr ([[525 / 512]], [5 / 512])"
  by (simp add: faster_quant_groups_def float32_runner_def configure_quantization_mode_def
      fc_runner_def init_def is_matrix_def square_def dead_of_def diag_of_def set_dead_diag_def
      zero_dead_columns_def columns_of_def column_def mean_def add_damp_def inverse_factor_1
      damped_hessian_def initial_state_def
      bind_err_def py_range_def block_step_def column_step_def enter_group_def
      start_of_group_def store_column_def column_error_def feed_back_def propagate_block_def
      quantize_column_def dequantize_column_def flatten_def unsqueeze1_def broadcast_column_def
      combine_columns_def floor_mode_def Let_def scalar_weight_def)

lemma faster_quant_float32_runner:
  "0 < h \<Longrightarrow> faster_quant float32_runner [[h]] (scalar_weight (33 / 32))
     = Inr (scalar_weight 105, scalar_weight (525 / 512), 5 / 512)"
  by (simp add: faster_quant_def qmode_float32_runner get_qparams_floor_mode
      groups_float32_runner bind_err_def)
     (simp add: from_columns_def to_orig_dtype_def orig_dtype_float32_runner floor_mode_def
      scalar_weight_def)

text \<open>
  Claim C2 as stated fails. The weight \<open>33 / 32\<close> is a bfloat16 value; on the grid of step
  \<open>5 / 512\<close> it quantizes to \<open>105\<close> and reconstructs in float32 to \<open>525 / 512\<close>, which the
  cast to bfloat16 rounds to \<open>131 / 128\<close>. \<^verbatim>\<open>faster_quant\<close> returns \<open>Q = 105\<close>
  with that rounded reconstruction, and quantizing the returned reconstruction gives \<open>104\<close>.
\<close>

theorem requantized_cast_counterexample:
  "faster_quant bfloat16_runner [[1]] (scalar_weight (33 / 32))
     = Inr (scalar_weight 105, scalar_weight (131 / 128), 5 / 512) \<and>
   quantize_func floor_mode (scalar_weight (131 / 128)) (5 / 512) = scalar_weight 104 \<and>
   scalar_weight 104 \<noteq> scalar_weight 105"
  by (simp add: faster_quant_def qmode_bfloat16_runner get_qparams_floor_mode
      groups_bfloat16_runner bind_err_def)
     (simp add: from_columns_def to_orig_dtype_def orig_dtype_bfloat16_runner floor_mode_def
      round_def scalar_weight_def)

text \<open>
  Claim C2, amended. Whenever \<^verbatim>\<open>faster_quant\<close> returns \<open>(Q, DQ, qparams)\<close>, the
  returned qparams are the combination of the per-group list, \<open>Q\<close> is the quantization
  under them of the float32 reconstruction (the columns the loop produced), and the returned
  \<open>DQ\<close> is that reconstruction cast to the dtype of the weight. When the cast changes no
  value (float32 weights), \<open>Q\<close> is the quantization of the returned \<open>DQ\<close>.
\<close>

theorem faster_quant_requantizes_float_DQ:
  assumes "faster_quant rn H Wt = Inr (Q, DQr, qp)"
  shows "\<exists>qm gq cs qs.
     qmode rn = Some qm \<and> get_qparams_func qm = Some gq \<and>
     faster_quant_groups rn qm gq H Wt = Inr (cs, qs) \<and>
     qp = combine_qparams_list_func qm qs \<and>
     Q = quantize_func qm (from_columns (shape Wt ! 0) cs) qp \<and>
     DQr = to_orig_dtype rn (from_columns (shape Wt ! 0) cs) \<and>
     ((\<forall>x. orig_dtype rn x = x) \<longrightarrow> Q = quantize_func qm DQr qp)"
  using assms
  by (auto simp: faster_quant_def bind_err_def to_orig_dtype_float32 Let_def
      split: option.splits sum.splits prod.splits)

theorem faster_quant_requantizes_float_DQ_witness:
  "faster_quant float32_runner [[1]] (scalar_weight (33 / 32))
     = Inr (scalar_weight 105, scalar_weight (525 / 512), 5 / 512) \<and>
   (\<forall>x. orig_dtype float32_runner x = x) \<and>
   scalar_weight 105 = quantize_func floor_mode (scalar_weight (525 / 512)) (5 / 512)"
  using faster_quant_requantizes_float_DQ [OF faster_quant_float32_runner [of 1]]
  by (auto simp: faster_quant_float32_runner orig_dtype_float32_runner qmode_float32_runner)

subsection \<open>Arguments of unequal lengths\<close>

lemma length_zip_star: "ls \<noteq> [] \<Longrightarrow> length (zip_star ls) = Min (set (map length ls))"
  by (simp add: zip_star_def)

lemma length_values_or_broadcast:
  "length (values_or_broadcast n x) = (if is_MultiInput x then len_values x else n)"
  by (cases x) simp_all

lemma batch_length_le_count:
  "x \<in> set flat \<Longrightarrow> len_values x \<le> multi_input_count flat"
  by (simp add: multi_input_count_def)

lemma set_batch_lengths:
  "set (batch_lengths flat) = len_values ` {x \<in> set flat. is_MultiInput x}"
  by (auto simp: batch_lengths_def)

lemma min_broadcast_lengths:
  assumes "list_ex is_MultiInput flat"
  shows "Min (set (map length (map (values_or_broadcast (multi_input_count flat)) flat)))
           = Min (set (batch_lengths flat))"
proof -
  let ?n = "multi_input_count flat"
  let ?A = "set (map length (map (values_or_broadcast ?n) flat))"
  let ?B = "set (batch_lengths flat)"
  from assms obtain b where b: "b \<in> set flat" "is_MultiInput b"
    by (auto simp: list_ex_iff)
  have sub: "?B \<subseteq> ?A"
    by (auto simp: set_batch_lengths length_values_or_broadcast image_iff intro!: bexI)
  have ne: "?B \<noteq> {}" using b by (auto simp: set_batch_lengths)
  have "Min ?A \<le> Min ?B" using sub ne by (intro Min_antimono) auto
  moreover have "Min ?B \<le> Min ?A"
  proof (rule Min.boundedI)
    show "finite ?A" by simp
    show "?A \<noteq> {}" using b by auto
    fix a assume "a \<in> ?A"
    then obtain x where x: "x \<in> set flat" "a = length (values_or_broadcast ?n x)" by auto
    show "Min ?B \<le> a"
    proof (cases "is_MultiInput x")
      case True
      then have "a \<in> ?B" using x by (auto simp: set_batch_lengths length_values_or_broadcast)
      then show ?thesis by simp
    next
      case False
      then have "a = ?n" using x by (simp add: length_values_or_broadcast)
      moreover have "len_values b \<le> ?n" using b by (simp add: batch_length_le_count)
      moreover have "Min ?B \<le> len_values b" using b by (auto simp: set_batch_lengths)
      ultimately show ?thesis by simp
    qed
  qed
  ultimately show ?thesis by simp
qed

lemma length_transposed_args:
  "list_ex is_MultiInput flat \<Longrightarrow> length (transposed_args flat) = Min (set (batch_lengths flat))"
proof -
  assume m: "list_ex is_MultiInput flat"
  then have "flat \<noteq> []" by auto
  have "length (transposed_args flat)
      = length (zip_star (map (values_or_broadcast (multi_input_count flat)) flat))"
    using m by (simp add: transposed_args_def)
  also have "\<dots> = Min (set (map length (map (values_or_broadcast (multi_input_count flat)) flat)))"
    using \<open>flat \<noteq> []\<close> by (intro length_zip_star) simp
  also have "\<dots> = Min (set (batch_lengths flat))"
    by (rule min_broadcast_lengths [OF m])
  finally show ?thesis .
qed

lemma map_err_length: "map_err f xs = Inr ys \<Longrightarrow> length ys = length xs"
  by (induction xs arbitrary: ys) (auto split: sum.splits)

lemma map_err_total: "(\<forall>x \<in> set xs. \<exists>y. f x = Inr y) \<Longrightarrow> \<exists>ys. map_err f xs = Inr ys"
  by (induction xs) (auto split: sum.splits)

lemma map_err_Inl: "map_err f xs = Inl e \<Longrightarrow> \<exists>x \<in> set xs. f x = Inl e"
  by (induction xs) (auto split: sum.splits)

lemma count_is_longest:
  assumes "MultiInput us \<in> set flat" "MultiInput vs \<in> set flat" "length us \<noteq> length vs"
  shows "multi_input_count flat = Max (set (batch_lengths flat))"
proof -
  let ?B = "set (batch_lengths flat)"
  have in_B: "length us \<in> ?B" "length vs \<in> ?B"
    using assms by (force simp: set_batch_lengths)+
  have pos: "1 \<le> Max ?B"
  proof -
    have "length us \<le> Max ?B" "length vs \<le> Max ?B" using in_B by simp_all
    with assms(3) show ?thesis by linarith
  qed
  have "Max (set (map len_values flat)) = Max ?B"
  proof (rule Max_eqI)
    show "finite (set (map len_values flat))" by simp
    show "Max ?B \<in> set (map len_values flat)"
    proof -
      have "Max ?B \<in> ?B" using in_B by (intro Max_in) auto
      then show ?thesis by (auto simp: set_batch_lengths)
    qed
    fix y assume "y \<in> set (map len_values flat)"
    then obtain x where x: "x \<in> set flat" "y = len_values x" by auto
    show "y \<le> Max ?B"
    proof (cases "is_MultiInput x")
      case True
      then have "y \<in> ?B" using x by (auto simp: set_batch_lengths)
      then show ?thesis by simp
    next
      case False
      then have "y = 1" using x by (cases x) simp_all
      with pos show ?thesis by simp
    qed
  qed
  then show ?thesis by (simp add: multi_input_count_def)
qed



lemma call_plain_MultiInput:
  assumes "call_plain rn tgt args kwargs = Inr v"
    and "list_ex is_MultiInput (flat_args_of args kwargs)"
  shows "\<exists>outs. v = MultiInput outs \<and>
           length outs = Min (set (batch_lengths (flat_args_of args kwargs)))"
  using assms
  by (auto simp: call_plain_def flat_args_of_def bind_err_def length_transposed_args Let_def
      split: sum.splits dest!: map_err_length)

lemma call_plain_no_error:
  assumes "\<forall>inp \<in> set (transposed_args (flat_args_of args kwargs)).
             \<exists>y. run_one rn tgt args kwargs inp = Inr y"
  shows "\<exists>v. call_plain rn tgt args kwargs = Inr v"
  using map_err_total [OF assms]
  by (auto simp: call_plain_def flat_args_of_def bind_err_def Let_def)

lemma quantize_linear_SomeD:
  assumes "quantize_linear rn tgt args skip_quant = Inr (Some (qm, name, Wt))"
  shows "\<exists>i. 2 \<le> length args \<and> args ! 1 = Param i Wt \<and> id_to_name rn i = Some name \<and>
             qmode rn = Some qm \<and> tgt = aten_linear_default \<and> \<not> skip_quant"
  using assms
  by (auto simp: quantize_linear_def split: if_splits val.splits option.splits)

lemma args_decompose: "2 \<le> length args \<Longrightarrow> args = args ! 0 # args ! 1 # drop 2 args"
  by (cases args; cases "tl args") (auto simp: numeral_2_eq_2)

lemma flat_args_replace_weight:
  assumes "2 \<le> length args" "args ! 1 = Param i Wt"
  shows "filter is_MultiInput (flat_args_of (args ! 0 # Tensor D # drop 2 args) kwargs)
           = filter is_MultiInput (flat_args_of args kwargs)"
proof -
  have "flat_args_of args kwargs = flat_args_of (args ! 0 # Param i Wt # drop 2 args) kwargs"
    using args_decompose [OF assms(1)] assms(2) by simp
  then show ?thesis
    by (simp add: flat_args_of_def tree_flatten_def tensors_to_cuda_def split: val.splits)
qed

lemma quantize_node_Inr:
  assumes "quantize_node rn qm name Wt tgt args kwargs = (Inr v, rn')"
  shows "\<exists>H n Q D qp.
     accumulate_hessian qm args kwargs (transposed_args (flat_args_of args kwargs))
       = Inr (Some H, n) \<and>
     faster_quant rn H Wt = Inr (Q, D, qp) \<and>
     rn' = rn\<lparr>new_state_dict := update_state_dict (mod_fqn_of name) args
              (make_names_and_values_dict_func qm Q qp) (new_state_dict rn)\<rparr> \<and>
     call_plain rn' tgt (args ! 0 # Tensor D # drop 2 args) kwargs = Inr v"
proof -
  let ?acc = "accumulate_hessian qm args kwargs (transposed_args (flat_args_of args kwargs))"
  from assms obtain Ho n where acc: "?acc = Inr (Ho, n)"
    by (cases ?acc) (auto simp: quantize_node_def flat_args_of_def bind_err_def Let_def)
  from assms acc obtain H where H: "Ho = Some H"
    by (cases Ho) (auto simp: quantize_node_def flat_args_of_def bind_err_def Let_def)
  from assms acc H obtain Q D qp where fq: "faster_quant rn H Wt = Inr (Q, D, qp)"
    by (cases "faster_quant rn H Wt")
      (auto simp: quantize_node_def flat_args_of_def bind_err_def Let_def)
  let ?rn = "rn\<lparr>new_state_dict := update_state_dict (mod_fqn_of name) args
              (make_names_and_values_dict_func qm Q qp) (new_state_dict rn)\<rparr>"
  from assms acc H fq have "rn' = ?rn \<and>
      call_plain ?rn tgt (args ! 0 # Tensor D # drop 2 args) kwargs = Inr v"
    by (cases "call_plain ?rn tgt (args ! 0 # Tensor D # drop 2 args) kwargs")
      (auto simp: quantize_node_def flat_args_of_def bind_err_def Let_def
        split: if_splits sum.splits)
  with acc H fq show ?thesis by blast
qed

lemma list_ex_filter: "list_ex P xs \<longleftrightarrow> filter P xs \<noteq> []"
  by (induction xs) auto

lemma quantize_node_MultiInput:
  assumes "quantize_node rn qm name Wt tgt args kwargs = (Inr v, rn')"
    and "2 \<le> length args" "args ! 1 = Param i Wt"
    and "list_ex is_MultiInput (flat_args_of args kwargs)"
  shows "\<exists>outs. v = MultiInput outs \<and>
           length outs = Min (set (batch_lengths (flat_args_of args kwargs)))"
proof -
  from quantize_node_Inr [OF assms(1)] obtain D where cp:
    "call_plain rn' tgt (args ! 0 # Tensor D # drop 2 args) kwargs = Inr v"
    by blast
  have f: "filter is_MultiInput (flat_args_of (args ! 0 # Tensor D # drop 2 args) kwargs)
             = filter is_MultiInput (flat_args_of args kwargs)"
    by (rule flat_args_replace_weight [OF assms(2,3)])
  have ex: "list_ex is_MultiInput (flat_args_of (args ! 0 # Tensor D # drop 2 args) kwargs)"
    using assms(4) f by (simp add: list_ex_filter)
  from call_plain_MultiInput [OF cp ex] f show ?thesis by (simp add: batch_lengths_def)
qed

text \<open>
  Claim C10. Let the flattened arguments of a node contain two \<^verbatim>\<open>MultiInput\<close>
  batches of unequal lengths. Then \<^verbatim>\<open>multi_input_count\<close>, the length to which
  plain arguments are repeated, is the length of the longest batch; \<^verbatim>\<open>transposed_args\<close>
  has as many tuples as the shortest batch has values, so the node is evaluated that many
  times; whenever \<^verbatim>\<open>call_function\<close> returns, on a quantized node or not, it
  returns a \<^verbatim>\<open>MultiInput\<close> of that shortest length; and the unequal lengths raise
  nothing: if the target succeeds on every tuple, the evaluation of the node succeeds.
\<close>

theorem unequal_batches_are_truncated:
  assumes "MultiInput us \<in> set (flat_args_of args kwargs)"
    and "MultiInput vs \<in> set (flat_args_of args kwargs)"
    and "length us \<noteq> length vs"
  shows "multi_input_count (flat_args_of args kwargs)
           = Max (set (batch_lengths (flat_args_of args kwargs))) \<and>
         length (transposed_args (flat_args_of args kwargs))
           = Min (set (batch_lengths (flat_args_of args kwargs))) \<and>
         (\<forall>v rn'. call_function rn tgt args kwargs skip_quant = (Inr v, rn') \<longrightarrow>
            (\<exists>outs. v = MultiInput outs \<and>
               length outs = Min (set (batch_lengths (flat_args_of args kwargs))))) \<and>
         ((\<forall>inp \<in> set (transposed_args (flat_args_of args kwargs)).
              \<exists>y. run_one rn tgt args kwargs inp = Inr y) \<longrightarrow>
            (\<exists>v. call_plain rn tgt args kwargs = Inr v))"
proof -
  let ?flat = "flat_args_of args kwargs"
  have ex: "list_ex is_MultiInput ?flat"
    using assms(1) by (auto simp: list_ex_iff intro!: bexI [of _ "MultiInput us"])
  have "\<exists>outs. v = MultiInput outs \<and> length outs = Min (set (batch_lengths ?flat))"
    if "call_function rn tgt args kwargs skip_quant = (Inr v, rn')" for v rn'
  proof (cases "quantize_linear rn tgt args skip_quant")
    case (Inl e)
    with that show ?thesis by (simp add: call_function_def)
  next
    case (Inr r)
    show ?thesis
    proof (cases r)
      case None
      with Inr that have "call_plain rn tgt args kwargs = Inr v"
        by (auto simp: call_function_def)
      from call_plain_MultiInput [OF this ex] show ?thesis .
    next
      case (Some t)
      obtain qm name Wt where t: "t = (qm, name, Wt)" by (cases t)
      from Inr Some t that have qn: "quantize_node rn qm name Wt tgt args kwargs = (Inr v, rn')"
        by (simp add: call_function_def)
      from quantize_linear_SomeD Inr Some t obtain i where
        "2 \<le> length args" "args ! 1 = Param i Wt" by blast
      from quantize_node_MultiInput [OF qn this ex] show ?thesis .
    qed
  qed
  then show ?thesis
    using count_is_longest [OF assms] length_transposed_args [OF ex] call_plain_no_error
    by blast
qed


lemma flat_two_batches: "flat_args_of two_batches [] = two_batches"
  by (simp add: flat_args_of_def tree_flatten_def tensors_to_cuda_def two_batches_def)

lemma transposed_two_batches:
  "transposed_args two_batches
     = [[sample [1], sample [10]], [sample [2], sample [20]]]"
  by (simp add: transposed_args_def two_batches_def zip_star_def multi_input_count_def upt_rec)

lemma exec_float32_runner: "exec float32_runner = aten_exec"
  by (simp add: float32_runner_def configure_quantization_mode_def fc_runner_def init_def)

lemma length_two_batches: "length two_batches = 2"
  by (simp add: two_batches_def)

lemma run_one_add:
  "run_one float32_runner (aten_op ''add'') two_batches [] [sample [a], sample [b]]
     = Inr (sample [a + b])"
  by (simp add: run_one_def tree_unflatten_def length_two_batches exec_float32_runner
      tensors_to_cuda_def sample_def aten_exec_def add_def)

lemma call_plain_two_batches:
  "call_plain float32_runner (aten_op ''add'') two_batches []
     = Inr (MultiInput [sample [11], sample [22]])"
proof -
  have "list_ex is_MultiInput two_batches" by (simp add: two_batches_def)
  then show ?thesis
    by (simp add: call_plain_def flat_two_batches transposed_two_batches run_one_add bind_err_def)
qed

lemma call_function_two_batches:
  "call_function float32_runner (aten_op ''add'') two_batches [] False
     = (Inr (MultiInput [sample [11], sample [22]]), float32_runner)"
  by (simp add: call_function_def quantize_linear_def call_plain_two_batches)

theorem unequal_batches_are_truncated_witness:
  "MultiInput [sample [1], sample [2]] \<in> set (flat_args_of two_batches []) \<and>
   MultiInput [sample [10], sample [20], sample [30]] \<in> set (flat_args_of two_batches []) \<and>
   length [sample [1], sample [2]] \<noteq> length [sample [10], sample [20], sample [30]] \<and>
   multi_input_count (flat_args_of two_batches []) = 3 \<and>
   length (transposed_args (flat_args_of two_batches [])) = 2 \<and>
   call_function float32_runner (aten_op ''add'') two_batches [] False
     = (Inr (MultiInput [sample [11], sample [22]]), float32_runner) \<and>
   Min (set (batch_lengths (flat_args_of two_batches []))) = 2 \<and>
   transposed_args (flat_args_of two_batches [])
     = [[sample [1], sample [10]], [sample [2], sample [20]]] \<and>
   run_one float32_runner (aten_op ''add'') two_batches [] [sample [1], sample [10]]
     = Inr (sample [11]) \<and>
   run_one float32_runner (aten_op ''add'') two_batches [] [sample [2], sample [20]]
     = Inr (sample [22]) \<and>
   call_plain float32_runner (aten_op ''add'') two_batches []
     = Inr (MultiInput [sample [11], sample [22]])"
proof -
  have m: "MultiInput [sample [1], sample [2]] \<in> set (flat_args_of two_batches [])"
    "MultiInput [sample [10], sample [20], sample [30]] \<in> set (flat_args_of two_batches [])"
    unfolding flat_two_batches by (simp_all add: two_batches_def)
  have n: "length [sample [1], sample [2]] \<noteq> length [sample [10], sample [20], sample [30]]"
    by simp
  have b: "batch_lengths (flat_args_of two_batches []) = [2, 3]"
    unfolding flat_two_batches by (simp add: batch_lengths_def two_batches_def)
  have r: "\<forall>inp \<in> set (transposed_args (flat_args_of two_batches [])).
      \<exists>y. run_one float32_runner (aten_op ''add'') two_batches [] inp = Inr y"
    by (simp add: flat_two_batches transposed_two_batches run_one_add)
  from unequal_batches_are_truncated [OF m n, of float32_runner "aten_op ''add''" False]
  show ?thesis
    using m n b r call_plain_two_batches call_function_two_batches
    by (simp add: flat_two_batches transposed_two_batches run_one_add)
qed

subsection \<open>Skipped and quantized linear nodes\<close>

text \<open>
  Claim C8, amended. For a linear node whose weight the quantization mode's
  \<^verbatim>\<open>skip_layer_func\<close> tells to skip, \<^verbatim>\<open>call_function\<close> evaluates the node
  as any other node, with the original weight, and leaves the runner as it was: nothing is
  raised for the skip and \<^verbatim>\<open>new_state_dict\<close> is not touched. So every entry of the
  mapping that \<^verbatim>\<open>get_quantized_state_dict\<close> then returns is the entry the state
  dict had before the node, the layer's own entries included (names with the marker
  \<^verbatim>\<open>kv_cache\<close> apart).
\<close>

theorem skipped_layer_is_left_alone:
  assumes "qmode rn = Some qm" "skip_layer_func qm = Some skip" "skip Wt"
    and "2 \<le> length args" "args ! 1 = Param i Wt"
  shows "call_function rn aten_linear_default args kwargs skip_quant
           = (call_plain rn aten_linear_default args kwargs, rn) \<and>
         (gptq_done rn \<longrightarrow> \<not> contains ''kv_cache'' key \<longrightarrow>
            entry_of key (get_quantized_state_dict
               (snd (call_function rn aten_linear_default args kwargs skip_quant)))
              = Inr (new_state_dict rn key))"
  using assms
  by (auto simp: call_function_def quantize_linear_def entry_of_def get_quantized_state_dict_def
      Let_def split: option.splits)

lemma mod_fqn_fc: "mod_fqn_of ''fc.weight'' = ''fc''"
  by (simp add: mod_fqn_of_def)

lemma qmode_skip_runner: "qmode skip_runner = Some skip_mode"
  by (simp add: skip_runner_def configure_quantization_mode_def)

lemma exec_skip_runner: "exec skip_runner = aten_exec"
  by (simp add: skip_runner_def configure_quantization_mode_def fc_runner_def init_def)

lemma length_fc_args: "length fc_args = 2" "fc_args ! 0 = MultiInput [sample [1], sample [1]]"
  "fc_args ! 1 = Param 0 (scalar_weight (33 / 32))" "drop 2 fc_args = []"
  "fc_args ! Suc 0 = Param 0 (scalar_weight (33 / 32))"
  by (simp_all add: fc_args_def)

lemma flat_fc_args: "flat_args_of fc_args [] = [MultiInput [sample [1], sample [1]], Tensor (scalar_weight (33 / 32))]"
  by (simp add: flat_args_of_def tree_flatten_def tensors_to_cuda_def fc_args_def)

lemma flat_fc_args': "flat_args_of [MultiInput [sample [1], sample [1]], Tensor w] []
   = [MultiInput [sample [1], sample [1]], Tensor w]"
  by (simp add: flat_args_of_def tree_flatten_def tensors_to_cuda_def)

lemma transposed_fc:
  "transposed_args [MultiInput [sample [1], sample [1]], Tensor w]
     = [[sample [1], Tensor w], [sample [1], Tensor w]]"
  by (simp add: transposed_args_def zip_star_def multi_input_count_def upt_rec numeral_2_eq_2)

lemma linear_scalar: "linear \<lparr>shape = [1, 1], data = [x]\<rparr> (scalar_weight w) = \<lparr>shape = [1, 1], data = [x * w]\<rparr>"
  by (simp add: linear_def scalar_weight_def dot_def)

lemma run_one_fc:
  "length args = 2 \<Longrightarrow> exec rn = aten_exec \<Longrightarrow>
   run_one rn aten_linear_default args [] [sample [x], Tensor (scalar_weight w)]
     = Inr (sample [x * w])"
  using linear_scalar [of x w]
  by (simp add: run_one_def tree_unflatten_def tensors_to_cuda_def sample_def aten_exec_def)

lemma call_plain_fc:
  "exec rn = aten_exec \<Longrightarrow>
   call_plain rn aten_linear_default [MultiInput [sample [1], sample [1]], v] []
     = Inr (MultiInput [sample [w], sample [w]])"
  if "v = Tensor (scalar_weight w) \<or> v = Param i (scalar_weight w)"
proof -
  assume e: "exec rn = aten_exec"
  have f: "flat_args_of [MultiInput [sample [1], sample [1]], v] []
     = [MultiInput [sample [1], sample [1]], Tensor (scalar_weight w)]"
    using that by (auto simp: flat_args_of_def tree_flatten_def tensors_to_cuda_def)
  show ?thesis
    by (simp add: call_plain_def f transposed_fc run_one_fc e bind_err_def)
qed


lemma quantize_linear_skip_runner:
  "quantize_linear (skip_runner\<lparr>gptq_done := b\<rparr>) aten_linear_default fc_args False = Inr None"
  by (simp add: quantize_linear_def length_fc_args skip_runner_def configure_quantization_mode_def
      fc_runner_def init_def skip_mode_def)

lemma call_function_skip_runner:
  "call_function (skip_runner\<lparr>gptq_done := b\<rparr>) aten_linear_default fc_args [] False
     = (Inr (MultiInput [sample [33 / 32], sample [33 / 32]]), skip_runner\<lparr>gptq_done := b\<rparr>)"
proof -
  have "call_plain (skip_runner\<lparr>gptq_done := b\<rparr>) aten_linear_default fc_args []
      = Inr (MultiInput [sample [33 / 32], sample [33 / 32]])"
    unfolding fc_args_def by (rule call_plain_fc) (simp_all add: exec_skip_runner)
  then show ?thesis
    by (simp add: call_function_def quantize_linear_skip_runner)
qed

lemma graph_skip_runner: "graph skip_runner = fc_graph"
  "inputs skip_runner = [MultiInput [sample [1], sample [1]]]"
  "new_state_dict skip_runner = [''fc.weight'' \<mapsto> Tensor (scalar_weight (33 / 32))]"
  by (simp_all add: skip_runner_def configure_quantization_mode_def fc_runner_def init_def)

lemma get_qparams_skip_mode: "get_qparams_func skip_mode = Some (\<lambda>t. 5 / 512)"
  by (simp add: skip_mode_def floor_mode_def)

lemma run_skip_runner: "run skip_runner = (None, skip_runner\<lparr>gptq_done := True\<rparr>)"
proof -
  have "interp (skip_runner\<lparr>gptq_done := True\<rparr>) fc_graph Map.empty [MultiInput [sample [1], sample [1]]]
      = (Inr (MultiInput [sample [33 / 32], sample [33 / 32]]), skip_runner\<lparr>gptq_done := True\<rparr>)"
    using call_function_skip_runner [of True]
    by (simp add: fc_graph_def load_arg_def fc_args_def)
  then show ?thesis
    by (simp add: run_def qmode_skip_runner get_qparams_skip_mode graph_skip_runner)
qed

text \<open>
  Claim C8 as stated fails in its last part: the skipped layer is not absent from the
  returned mapping. With a mode that skips every layer, the run of the one-layer model
  raises nothing, and the returned mapping still has \<^verbatim>\<open>fc.weight\<close> with the
  original weight.
\<close>

theorem skipped_layer_present_counterexample:
  "quantize_linear skip_runner aten_linear_default fc_args False = Inr None \<and>
   fst (run skip_runner) = None \<and>
   entry_of ''fc.weight'' (get_quantized_state_dict (snd (run skip_runner)))
     = Inr (Some (Tensor (scalar_weight (33 / 32))))"
  using quantize_linear_skip_runner [of "gptq_done skip_runner"]
  by (simp add: run_skip_runner entry_of_def get_quantized_state_dict_def graph_skip_runner
      Let_def)

theorem skipped_layer_is_left_alone_witness:
  "qmode skip_runner = Some skip_mode \<and> skip_layer_func skip_mode = Some (\<lambda>w. True) \<and>
   2 \<le> length fc_args \<and> fc_args ! 1 = Param 0 (scalar_weight (33 / 32)) \<and>
   call_function skip_runner aten_linear_default fc_args [] False
     = (Inr (MultiInput [sample [33 / 32], sample [33 / 32]]), skip_runner) \<and>
   gptq_done (snd (run skip_runner)) \<and> \<not> contains ''kv_cache'' ''fc.weight'' \<and>
   entry_of ''fc.weight'' (get_quantized_state_dict
      (snd (call_function (snd (run skip_runner)) aten_linear_default fc_args [] False)))
     = Inr (Some (Tensor (scalar_weight (33 / 32))))"
proof -
  have s: "skip_layer_func skip_mode = Some (\<lambda>w. True)" by (simp add: skip_mode_def)
  have q: "qmode (skip_runner\<lparr>gptq_done := b\<rparr>) = Some skip_mode" for b
    by (simp add: qmode_skip_runner)
  have c: "call_function skip_runner aten_linear_default fc_args [] False
     = (Inr (MultiInput [sample [33 / 32], sample [33 / 32]]), skip_runner)"
    using call_function_skip_runner [of "gptq_done skip_runner"] by simp
  from skipped_layer_is_left_alone [OF q s, where Wt = "scalar_weight (33 / 32)"
      and args = fc_args and i = 0 and b1 = True and kwargs = "[]" and skip_quant = False
      and key = "''fc.weight''"]
  show ?thesis
    using s c
    by (simp add: qmode_skip_runner length_fc_args run_skip_runner call_function_skip_runner
        graph_skip_runner)
qed



lemma map_err_nth:
  "map_err f xs = Inr ys \<Longrightarrow> k < length ys \<Longrightarrow> f (xs ! k) = Inr (ys ! k)"
proof (induction xs arbitrary: ys k)
  case Nil
  then show ?case by simp
next
  case (Cons x xs)
  then show ?case by (cases k) (auto split: sum.splits)
qed

lemma call_plain_per_sample:
  assumes "call_plain rn tgt args kwargs = Inr (MultiInput outs)"
    and "list_ex is_MultiInput (flat_args_of args kwargs)" and "k < length outs"
  shows "run_one rn tgt args kwargs (transposed_args (flat_args_of args kwargs) ! k)
           = Inr (outs ! k)"
  using assms
  by (auto simp: call_plain_def bind_err_def Let_def split: sum.splits dest: map_err_nth)

text \<open>
  Claim C1, amended. When \<^verbatim>\<open>call_function\<close> returns on a quantization target,
  the Hessian was accumulated over the samples, \<^verbatim>\<open>faster_quant\<close> returned some
  \<open>(Q, DQ, qparams)\<close> for it and the weight, and the returned value is the evaluation of the
  node with \<open>DQ\<close>, the reconstruction of the quantized weight, in place of the weight: for
  each sample \<open>k\<close> the output is the target applied to the sample's arguments with \<open>DQ\<close>
  as second argument.
\<close>

theorem quantized_node_returns_output_of_DQ:
  assumes "quantize_linear rn tgt args False = Inr (Some (qm, name, Wt))"
    and "call_function rn tgt args kwargs False = (Inr v, rn')"
  shows "\<exists>H n Q DQt qp.
     accumulate_hessian qm args kwargs (transposed_args (flat_args_of args kwargs))
       = Inr (Some H, n) \<and>
     faster_quant rn H Wt = Inr (Q, DQt, qp) \<and>
     call_plain rn' tgt (args ! 0 # Tensor DQt # drop 2 args) kwargs = Inr v \<and>
     (\<forall>outs k. v = MultiInput outs \<and> k < length outs \<and>
        list_ex is_MultiInput (flat_args_of (args ! 0 # Tensor DQt # drop 2 args) kwargs) \<longrightarrow>
        run_one rn' tgt (args ! 0 # Tensor DQt # drop 2 args) kwargs
          (transposed_args (flat_args_of (args ! 0 # Tensor DQt # drop 2 args) kwargs) ! k)
          = Inr (outs ! k))"
proof -
  from assms have "quantize_node rn qm name Wt tgt args kwargs = (Inr v, rn')"
    by (simp add: call_function_def)
  from quantize_node_Inr [OF this] obtain H n Q DQt qp where
    *: "accumulate_hessian qm args kwargs (transposed_args (flat_args_of args kwargs))
          = Inr (Some H, n)"
       "faster_quant rn H Wt = Inr (Q, DQt, qp)"
       "call_plain rn' tgt (args ! 0 # Tensor DQt # drop 2 args) kwargs = Inr v"
    by blast
  have "run_one rn' tgt (args ! 0 # Tensor DQt # drop 2 args) kwargs
          (transposed_args (flat_args_of (args ! 0 # Tensor DQt # drop 2 args) kwargs) ! k)
          = Inr (outs ! k)"
    if "v = MultiInput outs" "k < length outs"
      "list_ex is_MultiInput (flat_args_of (args ! 0 # Tensor DQt # drop 2 args) kwargs)"
    for outs k
    using call_plain_per_sample [of rn' tgt "args ! 0 # Tensor DQt # drop 2 args" kwargs outs k]
      *(3) that by simp
  with * show ?thesis by blast
qed

lemma sqrt2_sq: "sqrt 2 * sqrt 2 = 2" by simp

lemma hessian_step_fc_first:
  "hessian_step floor_mode [sample [1], w] (None, 0) = Inr (Some [[2]], Suc 0)"
  by (simp add: hessian_step_def sample_def floor_mode_def scale_H_def reshape_rows_def
      t_rows_def matmul_t_def dot_def add_H_def bind_err_def Let_def)

lemma hessian_step_fc_second:
  "hessian_step floor_mode [sample [1], w] (Some [[2]], Suc 0) = Inr (Some [[2]], 2)"
  by (simp add: hessian_step_def sample_def floor_mode_def scale_H_def reshape_rows_def
      t_rows_def matmul_t_def dot_def add_H_def bind_err_def Let_def)

lemma tensors_to_cuda_sample:
  "tensors_to_cuda [sample xs, Tensor w] = [sample xs, Tensor w]"
  by (simp add: tensors_to_cuda_def sample_def)

lemma accumulate_hessian_fc:
  "accumulate_hessian floor_mode fc_args [] (transposed_args (flat_args_of fc_args []))
     = Inr (Some [[2]], 2)"
  by (simp add: accumulate_hessian_def flat_fc_args transposed_fc tree_unflatten_def
      length_fc_args tensors_to_cuda_sample hessian_step_fc_first hessian_step_fc_second)


lemma quantize_linear_float32_runner:
  "quantize_linear float32_runner aten_linear_default fc_args False
     = Inr (Some (floor_mode, ''fc.weight'', scalar_weight (33 / 32)))"
  by (simp add: quantize_linear_def length_fc_args float32_runner_def
      configure_quantization_mode_def fc_runner_def init_def) (simp add: floor_mode_def)

lemma update_fc:
  "update_state_dict ''fc'' fc_args (make_names_and_values_dict_func floor_mode Q qp)
     (new_state_dict float32_runner) = [''fc.weight'' \<mapsto> Tensor Q]"
  by (simp add: update_state_dict_def length_fc_args floor_mode_def float32_runner_def
      configure_quantization_mode_def fc_runner_def init_def)

lemma exec_quantized_runner: "exec quantized_runner = aten_exec" "debug quantized_runner"
  "orig_dtype quantized_runner = (\<lambda>x. x)"
  by (simp_all add: quantized_runner_def float32_runner_def configure_quantization_mode_def
      fc_runner_def init_def)

lemma debug_report_fc:
  "debug_report quantized_runner floor_mode aten_linear_default fc_args []
     (scalar_weight (33 / 32)) (scalar_weight 105) (scalar_weight (525 / 512)) (5 / 512)
     (MultiInput [sample [525 / 512], sample [525 / 512]]) = Inr ()"
proof -
  have cp: "call_plain quantized_runner aten_linear_default
      [MultiInput [sample [1], sample [1]], v] [] = Inr (MultiInput [sample [w], sample [w]])"
    if "v = Tensor (scalar_weight w) \<or> v = Param i (scalar_weight w)" for v w i
    using that by (intro call_plain_fc) (simp_all add: exec_quantized_runner)
  have sq: "SQNR (scalar_weight a) (scalar_weight b) = Inr ()" for a b
    by (simp add: SQNR_def broadcastable_def scalar_weight_def)
  have sr: "sqnr_report [sample [a], sample [a]] [sample [b], sample [b]] = Inr ()" for a b
    by (simp add: sqnr_report_def sample_def SQNR_def broadcastable_def bind_err_def)
  have dq: "to_orig_dtype quantized_runner (dequantize_func floor_mode (scalar_weight q) s)
      = scalar_weight (q * s)" for q s
    by (simp add: to_orig_dtype_def exec_quantized_runner floor_mode_def scalar_weight_def)
  have qq: "quantize_func floor_mode (scalar_weight (33 / 32)) (5 / 512) = scalar_weight 105"
    by (simp add: floor_mode_def scalar_weight_def)
  show ?thesis
    by (simp add: debug_report_def length_fc_args cp sq sr dq qq get_qparams_floor_mode
        bind_err_def)
qed

lemma call_function_float32_runner:
  "call_function float32_runner aten_linear_default fc_args [] False
     = (Inr (MultiInput [sample [525 / 512], sample [525 / 512]]), quantized_runner)"
proof -
  have cp: "call_plain quantized_runner aten_linear_default
      [MultiInput [sample [1], sample [1]], Tensor (scalar_weight (525 / 512))] []
      = Inr (MultiInput [sample [525 / 512], sample [525 / 512]])"
    by (intro call_plain_fc) (simp_all add: exec_quantized_runner)
  show ?thesis
    by (simp add: call_function_def quantize_linear_float32_runner quantize_node_def
        accumulate_hessian_fc faster_quant_float32_runner bind_err_def mod_fqn_fc update_fc
        quantized_runner_def [symmetric] length_fc_args cp exec_quantized_runner debug_report_fc)
qed

text \<open>
  Claim C1 as stated fails. The weight \<open>33 / 32\<close> of the one-layer model is a quantization
  target; on the grid of step \<open>5 / 512\<close> its reconstruction is \<open>525 / 512\<close>. For the two
  samples \<open>1\<close>, \<^verbatim>\<open>call_function\<close> returns \<open>525 / 512\<close> each, while the linear
  output with the original weight is \<open>33 / 32\<close> each.
\<close>

theorem quantized_node_output_counterexample:
  "quantize_linear float32_runner aten_linear_default fc_args False
     = Inr (Some (floor_mode, ''fc.weight'', scalar_weight (33 / 32))) \<and>
   fst (call_function float32_runner aten_linear_default fc_args [] False)
     = Inr (MultiInput [sample [525 / 512], sample [525 / 512]]) \<and>
   call_plain float32_runner aten_linear_default fc_args []
     = Inr (MultiInput [sample [33 / 32], sample [33 / 32]]) \<and>
   sample [525 / 512] \<noteq> sample [33 / 32]"
proof -
  have "call_plain float32_runner aten_linear_default fc_args []
     = Inr (MultiInput [sample [33 / 32], sample [33 / 32]])"
    unfolding fc_args_def by (rule call_plain_fc) (simp_all add: exec_float32_runner)
  then show ?thesis
    by (simp add: quantize_linear_float32_runner call_function_float32_runner sample_def)
qed

theorem quantized_node_returns_output_of_DQ_witness:
  "quantize_linear float32_runner aten_linear_default fc_args False
     = Inr (Some (floor_mode, ''fc.weight'', scalar_weight (33 / 32))) \<and>
   call_function float32_runner aten_linear_default fc_args [] False
     = (Inr (MultiInput [sample [525 / 512], sample [525 / 512]]), quantized_runner) \<and>
   accumulate_hessian floor_mode fc_args [] (transposed_args (flat_args_of fc_args []))
     = Inr (Some [[2]], 2) \<and>
   faster_quant float32_runner [[2]] (scalar_weight (33 / 32))
     = Inr (scalar_weight 105, scalar_weight (525 / 512), 5 / 512) \<and>
   call_plain quantized_runner aten_linear_default
     (fc_args ! 0 # Tensor (scalar_weight (525 / 512)) # drop 2 fc_args) []
     = Inr (MultiInput [sample [525 / 512], sample [525 / 512]])"
  using quantized_node_returns_output_of_DQ
    [OF quantize_linear_float32_runner call_function_float32_runner]
  by (simp add: quantize_linear_float32_runner call_function_float32_runner
      accumulate_hessian_fc faster_quant_float32_runner)

subsection \<open>Loops of \<^verbatim>\<open>faster_quant\<close>: shapes and groups\<close>

lemma fold_err_append:
  "fold_err f (xs @ ys) s = bind_err (fold_err f xs s) (fold_err f ys)"
  by (induction xs arbitrary: s) (auto simp: bind_err_def split: sum.splits)

lemma fold_err_map: "fold_err f (map g xs) s = fold_err (\<lambda>x. f (g x)) xs s"
  by (induction xs arbitrary: s) (auto split: sum.splits)

lemma fold_err_upt_invariant:
  assumes "fold_err f [0..<n] s = Inr s'" and "P 0 s"
    and "\<And>i t t'. i < n \<Longrightarrow> P i t \<Longrightarrow> f i t = Inr t' \<Longrightarrow> P (Suc i) t'"
  shows "P n s'"
  using assms
proof (induction n arbitrary: s')
  case 0
  then show ?case by simp
next
  case (Suc n)
  from Suc.prems(1) obtain t where t: "fold_err f [0..<n] s = Inr t" and t': "f n t = Inr s'"
    by (auto simp: fold_err_append bind_err_def split: sum.splits)
  have "P n t"
    using t Suc.prems(2) Suc.prems(3) by (intro Suc.IH) auto
  with t' show ?case by (intro Suc.prems(3) [of n t s']) auto
qed

lemma broadcast_column_length: "broadcast_column r v = Inr dq \<Longrightarrow> length dq = r"
  by (auto simp: broadcast_column_def split: if_splits)

lemma enter_group_Inr:
  assumes "enter_group rn gq r Wcols c st = Inr st'"
  shows "\<exists>ng. start_of_group (groupsize rn) c = Inr ng \<and>
     st' = (if ng then st\<lparr>cur_qparams := Some (gq (group_slice rn r Wcols c)),
                          all_qparams := all_qparams st @ [gq (group_slice rn r Wcols c)]\<rparr>
            else st)"
  using assms
  by (cases "start_of_group (groupsize rn) c")
     (auto simp: enter_group_def bind_err_def Let_def split: if_splits)

lemma column_step_Inr:
  assumes "column_step rn qm gq Hinv r Wcols i1 i st = Inr st'"
  shows "\<exists>st1 qp dq.
     enter_group rn gq r Wcols (i1 + i) st = Inr st1 \<and>
     cur_qparams st1 = Some qp \<and>
     broadcast_column r (dequantize_column qm qp (quantize_column qm qp (W1 st1 ! i))) = Inr dq \<and>
     st' = store_column Hinv i1 i dq st1"
proof -
  from assms obtain st1 where 1: "enter_group rn gq r Wcols (i1 + i) st = Inr st1"
    by (cases "enter_group rn gq r Wcols (i1 + i) st") (auto simp: column_step_def bind_err_def)
  from assms 1 obtain qp where 2: "cur_qparams st1 = Some qp"
    by (cases "cur_qparams st1") (auto simp: column_step_def bind_err_def)
  from assms 1 2 obtain dq where
    3: "broadcast_column r (dequantize_column qm qp (quantize_column qm qp (W1 st1 ! i))) = Inr dq"
    by (cases "broadcast_column r (dequantize_column qm qp (quantize_column qm qp (W1 st1 ! i)))")
       (auto simp: column_step_def bind_err_def)
  from assms 1 2 3 have "st' = store_column Hinv i1 i dq st1"
    by (simp add: column_step_def bind_err_def)
  with 1 2 3 show ?thesis by blast
qed

lemma block_step_Inr:
  assumes "block_step rn qm gq Hinv r columns i1 s = Inr s'"
  shows "\<exists>st. fold_err (column_step rn qm gq Hinv r (Wc s) i1)
                [0..<min (i1 + nat (blocksize rn)) columns - i1]
                \<lparr>W1 = take (min (i1 + nat (blocksize rn)) columns - i1) (drop i1 (Wc s)),
                 DQ1 = replicate (min (i1 + nat (blocksize rn)) columns - i1) (replicate r 0),
                 Err1 = replicate (min (i1 + nat (blocksize rn)) columns - i1) (replicate r 0),
                 cur_qparams = cur s, all_qparams = groups s\<rparr> = Inr st \<and>
     s' = \<lparr>Wc = propagate_block Hinv r i1 (min (i1 + nat (blocksize rn)) columns) (Err1 st) (Wc s),
           DQc = take i1 (DQc s) @ DQ1 st @ drop (min (i1 + nat (blocksize rn)) columns) (DQc s),
           cur = cur_qparams st, groups = all_qparams st\<rparr>"
  using assms
  by (auto simp: block_step_def bind_err_def Let_def split: sum.splits)

lemma group_starts_Suc:
  "a \<le> p \<Longrightarrow> group_starts gs a (Suc p)
     = group_starts gs a p @ (if gs \<noteq> - 1 \<and> int p mod gs = 0 then [p] else [])"
  by (simp add: group_starts_def)

lemma group_starts_append:
  "a \<le> b \<Longrightarrow> b \<le> c \<Longrightarrow> group_starts gs a c = group_starts gs a b @ group_starts gs b c"
proof -
  assume "a \<le> b" "b \<le> c"
  then obtain k where "c = b + k" by (auto simp: le_iff_add)
  with \<open>a \<le> b\<close> show ?thesis
    using upt_add_eq_append [of a b k] by (simp add: group_starts_def)
qed

lemma group_starts_empty [simp]: "group_starts gs a a = []"
  by (simp add: group_starts_def)

lemma start_of_group_Inr:
  "start_of_group gs c = Inr ng \<Longrightarrow> ng = (gs \<noteq> - 1 \<and> int c mod gs = 0)"
  by (auto simp: start_of_group_def split: if_splits)

lemma div_add_small:
  fixes g :: int
  assumes "0 < g" "0 \<le> a" "a < g"
  shows "(g * k + a) div g = k"
  using assms by (simp add: div_pos_pos_trivial)

lemma length_group_starts:
  assumes "0 < gs"
  shows "int (length (group_starts gs 0 p)) = (int p + gs - 1) div gs"
proof (induction p)
  case 0
  from assms show ?case by (simp add: group_starts_def div_pos_pos_trivial)
next
  case (Suc p)
  define m where "m = int p mod gs"
  define q where "q = int p div gs"
  have pm: "int p = gs * q + m" by (simp add: m_def q_def)
  have m: "0 \<le> m" "m < gs" using assms by (simp_all add: m_def)
  show ?case
  proof (cases "m = 0")
    case True
    have e1: "int p + gs - 1 = gs * q + (gs - 1)" using pm True by simp
    have "(gs * q + (gs - 1)) div gs = q" using assms by (intro div_add_small) auto
    then have 1: "(int p + gs - 1) div gs = q" by (simp only: e1)
    have e2: "int (Suc p) + gs - 1 = gs * (q + 1) + 0" using pm True by (simp add: algebra_simps)
    have "(gs * (q + 1) + 0) div gs = q + 1" using assms by (intro div_add_small) auto
    then have 2: "(int (Suc p) + gs - 1) div gs = q + 1" by (simp only: e2)
    have "int (length (group_starts gs 0 (Suc p))) = int (length (group_starts gs 0 p)) + 1"
      using True assms by (simp add: group_starts_Suc m_def)
    with Suc 1 2 show ?thesis by (simp only:)
  next
    case False
    have e1: "int p + gs - 1 = gs * (q + 1) + (m - 1)" using pm by (simp add: algebra_simps)
    have "(gs * (q + 1) + (m - 1)) div gs = q + 1"
      using assms m False by (intro div_add_small) auto
    then have 1: "(int p + gs - 1) div gs = q + 1" by (simp only: e1)
    have e2: "int (Suc p) + gs - 1 = gs * (q + 1) + m" using pm by (simp add: algebra_simps)
    have "(gs * (q + 1) + m) div gs = q + 1" using assms m by (intro div_add_small) auto
    then have 2: "(int (Suc p) + gs - 1) div gs = q + 1" by (simp only: e2)
    have "int (length (group_starts gs 0 (Suc p))) = int (length (group_starts gs 0 p))"
      using False by (simp add: group_starts_Suc m_def)
    with Suc 1 2 show ?thesis by (simp only:)
  qed
qed

lemma columns_ok_nth: "columns_ok r n cs \<Longrightarrow> j < n \<Longrightarrow> length (cs ! j) = r"
  by (simp add: columns_ok_def list_all_length)

lemma columns_ok_update:
  "columns_ok r n cs \<Longrightarrow> length v = r \<Longrightarrow> columns_ok r n (cs[i := v])"
  by (cases "i < length cs") (auto simp: columns_ok_def list_all_length nth_list_update)

lemma columns_ok_replicate [simp]: "columns_ok r n (replicate n (replicate r x))"
  by (simp add: columns_ok_def list_all_length)

lemma length_column_error:
  "length w = r \<Longrightarrow> length dq = r \<Longrightarrow> length (column_error Hinv c w dq) = r"
  by (simp add: column_error_def)

lemma columns_ok_feed_back:
  assumes "columns_ok r n cs" "length e = r"
  shows "columns_ok r n (feed_back Hinv i1 i e cs)"
  using assms by (auto simp: columns_ok_def feed_back_def list_all_length)

lemma store_column_ok:
  assumes "block_ok r n st" "i < n" "length dq = r"
  shows "block_ok r n (store_column Hinv i1 i dq st)"
proof -
  have w: "length (W1 st ! i) = r" using assms by (auto simp: block_ok_def intro: columns_ok_nth)
  then have e: "length (column_error Hinv (i1 + i) (W1 st ! i) dq) = r"
    using assms(3) by (rule length_column_error)
  show ?thesis
    using assms e
    by (simp add: block_ok_def store_column_def Let_def columns_ok_update columns_ok_feed_back)
qed

lemma enter_group_fields:
  assumes "enter_group rn gq r Wcols c st = Inr st'"
  shows "W1 st' = W1 st \<and> DQ1 st' = DQ1 st \<and> Err1 st' = Err1 st"
  using enter_group_Inr [OF assms] by (auto split: if_splits)

lemma column_step_ok:
  assumes "column_step rn qm gq Hinv r Wcols i1 i st = Inr st'" "block_ok r n st" "i < n"
  shows "block_ok r n st'"
proof -
  from column_step_Inr [OF assms(1)] obtain st1 qp dq where
    1: "enter_group rn gq r Wcols (i1 + i) st = Inr st1" and
    3: "broadcast_column r (dequantize_column qm qp (quantize_column qm qp (W1 st1 ! i))) = Inr dq"
    and 4: "st' = store_column Hinv i1 i dq st1"
    by blast
  have "block_ok r n st1" using enter_group_fields [OF 1] assms(2) by (simp add: block_ok_def)
  with 3 4 assms(3) show ?thesis
    by (simp add: store_column_ok broadcast_column_length)
qed

lemma started_Suc:
  "a \<le> p \<Longrightarrow> started rn gq r Wcols a (Suc p) = started rn gq r Wcols a p @
     (if groupsize rn \<noteq> - 1 \<and> int p mod groupsize rn = 0 then [gq (group_slice rn r Wcols p)] else [])"
  by (simp add: started_def group_starts_Suc)

lemma column_step_groups:
  assumes "column_step rn qm gq Hinv r Wcols i1 i st = Inr st'"
    and "groups_ok rn gq r Wcols cur0 all0 i1 (i1 + i) st"
  shows "groups_ok rn gq r Wcols cur0 all0 i1 (i1 + Suc i) st'"
proof -
  from column_step_Inr [OF assms(1)] obtain st1 qp dq where
    1: "enter_group rn gq r Wcols (i1 + i) st = Inr st1" and
    4: "st' = store_column Hinv i1 i dq st1"
    by blast
  from enter_group_Inr [OF 1] obtain ng where
    ng: "start_of_group (groupsize rn) (i1 + i) = Inr ng" and
    st1: "st1 = (if ng then st\<lparr>cur_qparams := Some (gq (group_slice rn r Wcols (i1 + i))),
                          all_qparams := all_qparams st @ [gq (group_slice rn r Wcols (i1 + i))]\<rparr>
            else st)"
    by blast
  have q: "cur_qparams st' = cur_qparams st1" "all_qparams st' = all_qparams st1"
    using 4 by (simp_all add: store_column_def Let_def)
  from start_of_group_Inr [OF ng] assms(2) st1 q show ?thesis
    by (auto simp: groups_ok_def started_Suc)
qed

lemma columns_ok_take_drop:
  assumes "columns_ok r c cs" "i1 + n \<le> c"
  shows "columns_ok r n (take n (drop i1 cs))"
  using assms by (auto simp: columns_ok_def list_all_length)

lemma columns_ok_propagate:
  assumes "columns_ok r c cs"
  shows "columns_ok r c (propagate_block Hinv r i1 i2 errs cs)"
  using assms by (auto simp: columns_ok_def propagate_block_def combine_columns_def list_all_length)

lemma columns_ok_splice:
  assumes "columns_ok r c cs" "columns_ok r (i2 - i1) ds" "i1 \<le> i2" "i2 \<le> c"
  shows "columns_ok r c (take i1 cs @ ds @ drop i2 cs)"
  using assms by (auto simp: columns_ok_def list_all_iff dest: in_set_takeD in_set_dropD)

lemma inner_loop_invariant:
  assumes "fold_err (column_step rn qm gq Hinv r Wcols i1) [0..<n] st0 = Inr st"
    and "block_ok r n st0"
    and "cur_qparams st0 = cur0" "all_qparams st0 = all0"
  shows "block_ok r n st \<and> groups_ok rn gq r Wcols cur0 all0 i1 (i1 + n) st"
proof -
  let ?P = "\<lambda>i st. block_ok r n st \<and> groups_ok rn gq r Wcols cur0 all0 i1 (i1 + i) st"
  have "?P n st"
  proof (rule fold_err_upt_invariant [OF assms(1), of ?P])
    show "?P 0 st0" using assms(2-4) by (simp add: groups_ok_def started_def)
  next
    fix i t t'
    assume "i < n" "?P i t" "column_step rn qm gq Hinv r Wcols i1 i t = Inr t'"
    then show "?P (Suc i) t'"
      using column_step_ok [of rn qm gq Hinv r Wcols i1 i t t' n]
        column_step_groups [of rn qm gq Hinv r Wcols i1 i t t' cur0 all0]
      by simp
  qed
  then show ?thesis .
qed

lemma block_step_ok:
  assumes "block_step rn qm gq Hinv r c i1 s = Inr s'" "state_ok rn r c i1 s" "i1 \<le> c"
  shows "state_ok rn r c (min (i1 + nat (blocksize rn)) c) s'"
proof -
  let ?i2 = "min (i1 + nat (blocksize rn)) c"
  from block_step_Inr [OF assms(1)] obtain st where
    f: "fold_err (column_step rn qm gq Hinv r (Wc s) i1) [0..<?i2 - i1]
          \<lparr>W1 = take (?i2 - i1) (drop i1 (Wc s)),
           DQ1 = replicate (?i2 - i1) (replicate r 0),
           Err1 = replicate (?i2 - i1) (replicate r 0),
           cur_qparams = cur s, all_qparams = groups s\<rparr> = Inr st"
    and s': "s' = \<lparr>Wc = propagate_block Hinv r i1 ?i2 (Err1 st) (Wc s),
           DQc = take i1 (DQc s) @ DQ1 st @ drop ?i2 (DQc s),
           cur = cur_qparams st, groups = all_qparams st\<rparr>"
    by blast
  have le: "i1 \<le> ?i2" "?i2 \<le> c" "i1 + (?i2 - i1) \<le> c" using assms(3) by simp_all
  have w: "columns_ok r c (Wc s)" and d: "columns_ok r c (DQc s)"
    using assms(2) by (simp_all add: state_ok_def)
  have "block_ok r (?i2 - i1) \<lparr>W1 = take (?i2 - i1) (drop i1 (Wc s)),
           DQ1 = replicate (?i2 - i1) (replicate r 0),
           Err1 = replicate (?i2 - i1) (replicate r 0),
           cur_qparams = cur s, all_qparams = groups s\<rparr>"
    using columns_ok_take_drop [OF w le(3)] by (simp add: block_ok_def)
  from inner_loop_invariant [OF f this] have
    b: "block_ok r (?i2 - i1) st" and
    g: "groups_ok rn gq r (Wc s) (cur s) (groups s) i1 (i1 + (?i2 - i1)) st"
    by simp_all
  have "length (all_qparams st)
      = length (group_starts (groupsize rn) 0 i1) + length (group_starts (groupsize rn) i1 ?i2)"
    using g assms(2) le by (simp add: groups_ok_def started_def state_ok_def)
  also have "\<dots> = length (group_starts (groupsize rn) 0 ?i2)"
    using group_starts_append [of 0 i1 ?i2 "groupsize rn"] le by simp
  finally have "length (all_qparams st) = length (group_starts (groupsize rn) 0 ?i2)" .
  moreover have "columns_ok r c (take i1 (DQc s) @ DQ1 st @ drop ?i2 (DQc s))"
    using d b le by (intro columns_ok_splice) (simp_all add: block_ok_def)
  ultimately show ?thesis
    using s' w by (simp add: state_ok_def columns_ok_propagate)
qed

lemma block_index_bound:
  fixes bs :: nat
  assumes "b < (c + bs - 1) div bs" "0 < bs"
  shows "b * bs < c"
proof -
  have "(b + 1) * bs \<le> ((c + bs - 1) div bs) * bs"
    using assms(1) by (intro mult_le_mono1) simp
  also have "\<dots> \<le> c + bs - 1" by (rule div_times_less_eq_dividend)
  finally have "b * bs + bs \<le> c + bs - 1" by simp
  with assms(2) show ?thesis by arith
qed

lemma block_count_covers:
  fixes bs :: nat
  assumes "0 < bs"
  shows "c \<le> ((c + bs - 1) div bs) * bs"
proof -
  have "c + bs - 1 = ((c + bs - 1) div bs) * bs + (c + bs - 1) mod bs" by simp
  moreover have "(c + bs - 1) mod bs < bs" using assms by simp
  ultimately show ?thesis by arith
qed

lemma outer_loop_invariant:
  assumes "fold_err (block_step rn qm gq Hinv r c) (map (\<lambda>k. k * bs) [0..<(c + bs - 1) div bs]) s0
             = Inr s"
    and "state_ok rn r c 0 s0" "bs = nat (blocksize rn)" "0 < bs"
  shows "state_ok rn r c c s"
proof -
  let ?nb = "(c + bs - 1) div bs"
  let ?P = "\<lambda>b s. state_ok rn r c (min (b * bs) c) s"
  from assms(1) have f: "fold_err (\<lambda>k. block_step rn qm gq Hinv r c (k * bs)) [0..<?nb] s0 = Inr s"
    by (simp add: fold_err_map)
  have "?P ?nb s"
  proof (rule fold_err_upt_invariant [OF f, of ?P])
    show "?P 0 s0" using assms(2) by simp
  next
    fix b t t'
    assume b: "b < ?nb" and t: "?P b t" and st: "block_step rn qm gq Hinv r c (b * bs) t = Inr t'"
    have lt: "b * bs < c" using b assms(4) by (rule block_index_bound)
    then have "state_ok rn r c (b * bs) t" using t by (simp add: min_def)
    from block_step_ok [OF st this] lt
    have "state_ok rn r c (min (b * bs + nat (blocksize rn)) c) t'" by simp
    then show "?P (Suc b) t'" using assms(3) by (simp add: add.commute)
  qed
  moreover have "min (?nb * bs) c = c" using block_count_covers [OF assms(4), of c] by simp
  ultimately show ?thesis by simp
qed

lemma faster_quant_groups_Inr:
  assumes "faster_quant_groups rn qm gq H Wt = Inr (cs, qs)"
  shows "is_matrix Wt \<and> square (shape Wt ! 1) H \<and>
     (\<exists>Hinv starts s.
        inverse_factor (damped_hessian rn H) = Inr Hinv \<and>
        py_range (shape Wt ! 1) (blocksize rn) = Inr starts \<and>
        fold_err (block_step rn qm gq Hinv (shape Wt ! 0) (shape Wt ! 1)) starts
          (initial_state rn gq H Wt) = Inr s \<and>
        cs = DQc s \<and>
        (groups s = [] \<longrightarrow> (\<exists>qp. cur s = Some qp \<and> qs = [qp])) \<and>
        (groups s \<noteq> [] \<longrightarrow> qs = groups s))"
proof -
  from assms have m: "is_matrix Wt" and sq: "square (shape Wt ! 1) H"
    by (auto simp: faster_quant_groups_def Let_def split: if_splits)
  from assms m sq obtain Hinv where 1: "inverse_factor (damped_hessian rn H) = Inr Hinv"
    by (cases "inverse_factor (damped_hessian rn H)")
       (auto simp: faster_quant_groups_def Let_def bind_err_def)
  from assms m sq 1 obtain starts where 2: "py_range (shape Wt ! 1) (blocksize rn) = Inr starts"
    by (cases "py_range (shape Wt ! 1) (blocksize rn)")
       (auto simp: faster_quant_groups_def Let_def bind_err_def)
  let ?f = "fold_err (block_step rn qm gq Hinv (shape Wt ! 0) (shape Wt ! 1)) starts
          (initial_state rn gq H Wt)"
  from assms m sq 1 2 obtain s where 3: "?f = Inr s"
    by (cases ?f) (auto simp: faster_quant_groups_def Let_def bind_err_def)
  from assms m sq 1 2 3 have "cs = DQc s \<and>
        (groups s = [] \<longrightarrow> (\<exists>qp. cur s = Some qp \<and> qs = [qp])) \<and>
        (groups s \<noteq> [] \<longrightarrow> qs = groups s)"
    by (auto simp: faster_quant_groups_def Let_def bind_err_def split: if_splits option.splits)
  with m sq 1 2 3 show ?thesis by blast
qed

lemma length_column: "length (column t j) = shape t ! 0"
  by (simp add: column_def)

lemma initial_state_ok:
  assumes "square (shape Wt ! 1) H"
  shows "state_ok rn (shape Wt ! 0) (shape Wt ! 1) 0 (initial_state rn gq H Wt)"
  using assms
  by (auto simp: state_ok_def initial_state_def columns_ok_def zero_dead_columns_def dead_of_def
      diag_of_def columns_of_def square_def list_all_length length_column)

lemma faster_quant_groups_shapes:
  assumes "faster_quant_groups rn qm gq H Wt = Inr (cs, qs)"
  shows "columns_ok (shape Wt ! 0) (shape Wt ! 1) cs \<and>
         (groupsize rn = - 1 \<longrightarrow> length qs = 1) \<and>
         (0 < groupsize rn \<longrightarrow>
            length qs = length (group_starts (groupsize rn) 0 (shape Wt ! 1)))"
proof -
  let ?r = "shape Wt ! 0" and ?c = "shape Wt ! 1"
  from faster_quant_groups_Inr [OF assms] obtain Hinv starts s where
    sq: "square ?c H" and
    2: "py_range ?c (blocksize rn) = Inr starts" and
    3: "fold_err (block_step rn qm gq Hinv ?r ?c) starts (initial_state rn gq H Wt) = Inr s" and
    cs: "cs = DQc s" and
    e: "groups s = [] \<longrightarrow> (\<exists>qp. cur s = Some qp \<and> qs = [qp])" and
    ne: "groups s \<noteq> [] \<longrightarrow> qs = groups s"
    by blast
  note i = initial_state_ok [OF sq, of rn gq]
  show ?thesis
  proof (cases "0 < blocksize rn \<and> 0 < ?c")
    case True
    define bs where "bs = nat (blocksize rn)"
    have bs: "0 < bs" using True by (simp add: bs_def)
    from 2 True have "starts = map (\<lambda>k. k * bs) [0..<(?c + bs - 1) div bs]"
      by (simp add: py_range_def bs_def)
    with 3 have ok: "state_ok rn ?r ?c ?c s"
      using outer_loop_invariant [of rn qm gq Hinv ?r ?c bs "initial_state rn gq H Wt" s] i bs
      by (simp add: bs_def)
    have "0 < groupsize rn \<Longrightarrow> groups s \<noteq> []"
    proof -
      assume g: "0 < groupsize rn"
      have "0 \<in> set (group_starts (groupsize rn) 0 ?c)"
        using True g by (simp add: group_starts_def)
      then have "group_starts (groupsize rn) 0 ?c \<noteq> []" by auto
      with ok show ?thesis by (auto simp: state_ok_def)
    qed
    moreover have "groupsize rn = - 1 \<Longrightarrow> groups s = []"
      using ok by (simp add: state_ok_def group_starts_def)
    ultimately show ?thesis
      using ok cs e ne by (auto simp: state_ok_def)
  next
    case False
    have "starts = []"
    proof (cases "0 < blocksize rn")
      case True
      with False have "?c = 0" by simp
      with 2 True show ?thesis by (simp add: py_range_def)
    next
      case False
      with 2 show ?thesis by (auto simp: py_range_def split: if_splits)
    qed
    with 3 have s: "s = initial_state rn gq H Wt" by simp
    then have "groups s = []" "cur s = (if groupsize rn = - 1 then Some (gq Wt) else None)"
      by (simp_all add: initial_state_def)
    with e cs s i show ?thesis
      by (auto simp: state_ok_def split: if_splits)
  qed
qed

subsection \<open>The inverse factor of a multiple of the identity\<close>

lemma length_unit_row [simp]: "length (unit_row n i c) = n"
  by (simp add: unit_row_def)

lemma nth_unit_row: "j < n \<Longrightarrow> unit_row n i c ! j = (if i = j then c else 0)"
  by (simp add: unit_row_def nth_list_update)

lemma length_scaled_identity [simp]: "length (scaled_identity n c) = n"
  by (simp add: scaled_identity_def)

lemma nth_scaled_identity [simp]: "i < n \<Longrightarrow> scaled_identity n c ! i = unit_row n i c"
  by (simp add: scaled_identity_def)

lemma unit_row_split:
  "k < n \<Longrightarrow> unit_row n k c = replicate k 0 @ c # replicate (n - k - 1) 0"
  by (auto simp: unit_row_def list_eq_iff_nth_eq nth_list_update nth_append nth_Cons split: nat.splits)

lemma dot_zeros_left: "\<forall>x \<in> set xs. x = 0 \<Longrightarrow> dot xs ys = 0"
proof (induction xs arbitrary: ys)
  case Nil
  then show ?case by (simp add: dot_def)
next
  case (Cons x xs)
  then show ?case by (cases ys) (auto simp: dot_def)
qed

lemma dot_zeros: "dot (replicate k 0) ys = 0"
  by (rule dot_zeros_left) simp

lemma chol_offdiag_zeros:
  assumes "\<forall>j. length acc \<le> j \<and> j < length acc + length Ls \<longrightarrow> a ! j = 0"
    and "\<forall>x \<in> set acc. x = 0"
  shows "chol_offdiag Ls a acc = replicate (length acc + length Ls) 0"
  using assms
proof (induction Ls arbitrary: acc)
  case Nil
  then show ?case by (simp add: replicate_length_same list_eq_iff_nth_eq)
next
  case (Cons Lj Ls)
  have z: "a ! length acc = 0" using Cons.prems(1) by simp
  have d: "dot acc Lj = 0" using Cons.prems(2) by (rule dot_zeros_left)
  have "chol_offdiag Ls a (acc @ [0]) = replicate (length (acc @ [0]) + length Ls) 0"
    using Cons.prems by (intro Cons.IH) auto
  with z d show ?case by simp
qed

lemma chol_rows_scaled_identity:
  assumes "0 < c" "k \<le> n"
  shows "chol_rows n (drop k (scaled_identity n c)) (take k (scaled_identity n (sqrt c)))
           = Some (scaled_identity n (sqrt c))"
  using assms(2)
proof (induction "n - k" arbitrary: k)
  case 0
  then show ?case by simp
next
  case (Suc m)
  then have k: "k < n" by simp
  have dr: "drop k (scaled_identity n c) = unit_row n k c # drop (Suc k) (scaled_identity n c)"
    using k by (simp add: Cons_nth_drop_Suc [symmetric])
  let ?L = "take k (scaled_identity n (sqrt c))"
  have off: "chol_offdiag ?L (unit_row n k c) [] = replicate k 0"
    using k chol_offdiag_zeros [of "[]" ?L "unit_row n k c"] by (simp add: nth_unit_row)
  have tk: "take (Suc k) (scaled_identity n (sqrt c)) = ?L @ [unit_row n k (sqrt c)]"
    using k by (simp add: take_Suc_conv_app_nth)
  have "chol_rows n (drop (Suc k) (scaled_identity n c)) (take (Suc k) (scaled_identity n (sqrt c)))
      = Some (scaled_identity n (sqrt c))"
    using Suc.hyps(2) k by (intro Suc.hyps(1)) auto
  then show ?case
    using assms(1) k
    by (simp add: dr off dot_zeros nth_unit_row tk unit_row_split [of k n "sqrt c"] Let_def)
qed

lemma cholesky_scaled_identity:
  "0 < c \<Longrightarrow> cholesky (scaled_identity n c) = Some (scaled_identity n (sqrt c))"
  using chol_rows_scaled_identity [of c 0 n] by (simp add: cholesky_def)

lemma sum_list_zeros: "\<forall>x \<in> set xs. x = 0 \<Longrightarrow> sum_list xs = (0::real)"
  by (induction xs) auto

lemma tri_inv_row_unit:
  assumes "k < n" "length M = k"
  shows "tri_inv_row n (unit_row n k s) M = unit_row n k (1 / s)"
proof -
  have z: "sum_list (map2 (\<lambda>l Mk. l * Mk ! j) (unit_row n k s) M) = 0" for j
  proof (rule sum_list_zeros, rule ballI)
    fix x assume "x \<in> set (map2 (\<lambda>l Mk. l * Mk ! j) (unit_row n k s) M)"
    then obtain m where "m < k" "x = unit_row n k s ! m * M ! m ! j"
      using assms by (auto simp: set_zip)
    then show "x = 0" using assms by (simp add: nth_unit_row)
  qed
  show ?thesis
    using assms by (auto simp: tri_inv_row_def z list_eq_iff_nth_eq nth_unit_row)
qed

lemma tri_inv_rows_scaled_identity:
  assumes "k \<le> n"
  shows "tri_inv_rows n (drop k (scaled_identity n s)) (take k (scaled_identity n (1 / s)))
           = scaled_identity n (1 / s)"
  using assms
proof (induction "n - k" arbitrary: k)
  case 0
  then show ?case by simp
next
  case (Suc m)
  then have k: "k < n" by simp
  have dr: "drop k (scaled_identity n s) = unit_row n k s # drop (Suc k) (scaled_identity n s)"
    using k by (simp add: Cons_nth_drop_Suc [symmetric])
  let ?M = "take k (scaled_identity n (1 / s))"
  have row: "tri_inv_row n (unit_row n k s) ?M = unit_row n k (1 / s)"
    using k by (intro tri_inv_row_unit) simp_all
  have tk: "take (Suc k) (scaled_identity n (1 / s)) = ?M @ [unit_row n k (1 / s)]"
    using k by (simp add: take_Suc_conv_app_nth)
  have "tri_inv_rows n (drop (Suc k) (scaled_identity n s)) (take (Suc k) (scaled_identity n (1 / s)))
      = scaled_identity n (1 / s)"
    using Suc.hyps(2) k by (intro Suc.hyps(1)) auto
  then show ?case by (simp add: dr row tk)
qed

lemma sum_list_scaled_identity:
  assumes "i < n" "j < n"
  shows "sum_list (map (\<lambda>Mk. Mk ! i * Mk ! j) (scaled_identity n d)) = (if i = j then d * d else 0)"
proof -
  have "map (\<lambda>Mk. Mk ! i * Mk ! j) (scaled_identity n d)
      = map (\<lambda>k. (if k = i then (if i = j then d * d else 0) else 0)) [0..<n]"
    using assms by (simp add: scaled_identity_def nth_unit_row)
  then have "sum_list (map (\<lambda>Mk. Mk ! i * Mk ! j) (scaled_identity n d))
      = sum_list (map (\<lambda>k. (if k = i then (if i = j then d * d else 0) else 0)) [0..<n])"
    by (simp only:)
  also have "\<dots> = (\<Sum>k = 0..<n. if k = i then (if i = j then d * d else 0) else 0)"
    by (simp add: interv_sum_list_conv_sum_set_nat)
  also have "\<dots> = (if i = j then d * d else 0)"
    using assms by (simp add: sum.delta)
  finally show ?thesis .
qed

lemma cholesky_inverse_scaled_identity:
  "cholesky_inverse (scaled_identity n s) = scaled_identity n ((1 / s) * (1 / s))"
proof -
  have M: "tri_inv_rows n (scaled_identity n s) [] = scaled_identity n (1 / s)"
    using tri_inv_rows_scaled_identity [of 0 n s] by simp
  show ?thesis
    by (auto simp: cholesky_inverse_def M Let_def list_eq_iff_nth_eq sum_list_scaled_identity
        nth_unit_row)
qed

lemma transpose_scaled_identity:
  "transpose_mat (scaled_identity n c) = scaled_identity n c"
  by (auto simp: transpose_mat_def list_eq_iff_nth_eq nth_unit_row)

lemma inverse_factor_scaled_identity:
  assumes "0 < c"
  shows "inverse_factor (scaled_identity n c) = Inr (scaled_identity n (sqrt (1 / c)))"
proof -
  have s: "0 < sqrt c" using assms by simp
  have "(1 / sqrt c) * (1 / sqrt c) = 1 / c" using assms by (simp add: field_simps)
  then have inv: "cholesky_inverse (scaled_identity n (sqrt c)) = scaled_identity n (1 / c)"
    by (simp add: cholesky_inverse_scaled_identity)
  have "cholesky_upper (scaled_identity n (1 / c)) = Some (scaled_identity n (sqrt (1 / c)))"
    using assms
    by (simp add: cholesky_upper_def transpose_scaled_identity cholesky_scaled_identity)
  then show ?thesis
    using assms by (simp add: inverse_factor_def cholesky_scaled_identity inv)
qed

subsection \<open>A diagonal inverse factor: no error feedback\<close>

lemma fold_err_upt_total:
  assumes "P 0 s"
    and "\<And>i t. i < n \<Longrightarrow> P i t \<Longrightarrow> \<exists>t'. f i t = Inr t' \<and> P (Suc i) t'"
  shows "\<exists>s'. fold_err f [0..<n] s = Inr s' \<and> P n s'"
  using assms(2)
proof (induction n)
  case 0
  with assms(1) show ?case by simp
next
  case (Suc n)
  have "\<exists>t. fold_err f [0..<n] s = Inr t \<and> P n t"
    by (rule Suc.IH) (simp add: Suc.prems)
  then obtain t where t: "fold_err f [0..<n] s = Inr t" "P n t" by blast
  from Suc.prems [of n t] t(2) obtain t' where "f n t = Inr t'" "P (Suc n) t'" by auto
  with t(1) show ?case by (simp add: fold_err_append bind_err_def)
qed

lemma current_group_start:
  assumes "0 < gs" "int p mod gs = 0"
  shows "current_group gs p = p"
proof -
  have "int (p mod nat gs) = 0" using assms by (simp add: zmod_int)
  then have "p mod nat gs = 0" by simp
  then have "nat gs dvd p" by (simp add: dvd_eq_mod_eq_0)
  then show ?thesis by (simp add: current_group_def)
qed

lemma current_group_inside:
  assumes "0 < gs" "int p mod gs \<noteq> 0"
  shows "0 < p \<and> current_group gs p = current_group gs (p - 1)"
proof -
  define g where "g = nat gs"
  have g: "0 < g" using assms(1) by (simp add: g_def)
  have "int (p mod g) \<noteq> 0" using assms by (simp add: zmod_int g_def)
  then have m: "0 < p mod g" by simp
  then have p: "0 < p" by (cases p) auto
  have e: "p = g * (p div g) + p mod g" by simp
  have "(p - 1) div g = p div g"
  proof (rule div_nat_eqI)
    show "g * (p div g) \<le> p - 1" using e m by arith
    have "p mod g < g" using g by simp
    then have "p < g * (p div g) + g" using e by arith
    then show "p - 1 < g * Suc (p div g)" by simp
  qed
  with p show ?thesis by (simp add: current_group_def g_def)
qed

lemma enter_group_diagonal:
  assumes "groupsize rn = - 1 \<or> 0 < groupsize rn"
    and "cur_qparams st = cur_at rn gq Wt Wcols p"
    and "all_qparams st = started rn gq (shape Wt ! 0) Wcols 0 p"
  shows "\<exists>st1. enter_group rn gq (shape Wt ! 0) Wcols p st = Inr st1 \<and>
           W1 st1 = W1 st \<and> DQ1 st1 = DQ1 st \<and> Err1 st1 = Err1 st \<and>
           cur_qparams st1 = Some (qparams_at rn gq Wt Wcols p) \<and>
           all_qparams st1 = started rn gq (shape Wt ! 0) Wcols 0 (Suc p)"
proof (cases "groupsize rn = - 1")
  case True
  with assms(2,3) show ?thesis
    by (simp add: enter_group_def start_of_group_def bind_err_def cur_at_def qparams_at_def
        started_Suc)
next
  case False
  with assms(1) have gs: "0 < groupsize rn" by simp
  show ?thesis
  proof (cases "int p mod groupsize rn = 0")
    case True
    with gs False assms(3) show ?thesis
      by (simp add: enter_group_def start_of_group_def bind_err_def qparams_at_def
          started_Suc current_group_start Let_def)
  next
    case nz: False
    from current_group_inside [OF gs nz] have p: "0 < p"
      and c: "current_group (groupsize rn) p = current_group (groupsize rn) (p - 1)" by simp_all
    with gs False nz assms(2,3) show ?thesis
      by (simp add: enter_group_def start_of_group_def bind_err_def qparams_at_def cur_at_def
          started_Suc)
  qed
qed

lemma cur_at_Suc:
  "groupsize rn = - 1 \<or> 0 < groupsize rn \<Longrightarrow>
   cur_at rn gq Wt Wcols (Suc p) = Some (qparams_at rn gq Wt Wcols p)"
  by (auto simp: cur_at_def qparams_at_def)

lemma map2_fst: "length xs \<le> length ys \<Longrightarrow> map2 (\<lambda>x y. x) xs ys = xs"
  by (induction xs arbitrary: ys) (auto simp: Suc_le_length_iff)

lemma feed_back_diagonal:
  assumes "i < j" "j < length cols" "i1 + j < c" "length (cols ! j) \<le> length e"
  shows "feed_back (scaled_identity c d) i1 i e cols ! j = cols ! j"
  using assms by (simp add: feed_back_def nth_unit_row map2_fst)

lemma length_feed_back [simp]: "length (feed_back Hinv i1 i e cols) = length cols"
  by (simp add: feed_back_def)

lemma column_step_diagonal:
  assumes gs: "groupsize rn = - 1 \<or> 0 < groupsize rn"
    and shape: "\<And>qp w. length w = shape Wt ! 0 \<Longrightarrow> length (round_trip qm qp w) = shape Wt ! 0"
    and W0: "columns_ok (shape Wt ! 0) c W0"
    and n: "i1 + n \<le> c" "i < n"
    and inv: "length (W1 st) = n" "length (DQ1 st) = n"
      "\<forall>j. i \<le> j \<and> j < n \<longrightarrow> W1 st ! j = W0 ! (i1 + j)"
      "\<forall>j < i. DQ1 st ! j = round_trip qm (qparams_at rn gq Wt W0 (i1 + j)) (W0 ! (i1 + j))"
      "cur_qparams st = cur_at rn gq Wt W0 (i1 + i)"
      "all_qparams st = started rn gq (shape Wt ! 0) W0 0 (i1 + i)"
  shows "\<exists>st'. column_step rn qm gq (scaled_identity c d) (shape Wt ! 0) W0 i1 i st = Inr st' \<and>
      length (W1 st') = n \<and> length (DQ1 st') = n \<and>
      (\<forall>j. Suc i \<le> j \<and> j < n \<longrightarrow> W1 st' ! j = W0 ! (i1 + j)) \<and>
      (\<forall>j < Suc i. DQ1 st' ! j = round_trip qm (qparams_at rn gq Wt W0 (i1 + j)) (W0 ! (i1 + j))) \<and>
      cur_qparams st' = cur_at rn gq Wt W0 (i1 + Suc i) \<and>
      all_qparams st' = started rn gq (shape Wt ! 0) W0 0 (i1 + Suc i)"
proof -
  let ?r = "shape Wt ! 0"
  let ?qp = "qparams_at rn gq Wt W0 (i1 + i)"
  from enter_group_diagonal [OF gs inv(5) inv(6)] obtain st1 where
    1: "enter_group rn gq ?r W0 (i1 + i) st = Inr st1" and
    f: "W1 st1 = W1 st" "DQ1 st1 = DQ1 st" "Err1 st1 = Err1 st" and
    c: "cur_qparams st1 = Some ?qp" and
    a: "all_qparams st1 = started rn gq ?r W0 0 (Suc (i1 + i))"
    by blast
  have wi: "W1 st ! i = W0 ! (i1 + i)" using inv(3) n(2) by simp
  have lw: "length (W0 ! (i1 + i)) = ?r" using columns_ok_nth [OF W0, of "i1 + i"] n by simp
  let ?dq = "round_trip qm ?qp (W0 ! (i1 + i))"
  have ldq: "length ?dq = ?r" by (rule shape [OF lw])
  have b: "broadcast_column ?r ?dq = Inr ?dq" using ldq by (simp add: broadcast_column_def)
  let ?st' = "store_column (scaled_identity c d) i1 i ?dq st1"
  have step: "column_step rn qm gq (scaled_identity c d) ?r W0 i1 i st = Inr ?st'"
    using 1 c b wi f(1) by (simp add: column_step_def bind_err_def round_trip_def)
  let ?e = "column_error (scaled_identity c d) (i1 + i) (W1 st1 ! i) ?dq"
  have le: "length ?e = ?r" using lw ldq wi f(1) by (simp add: length_column_error)
  have W1': "W1 ?st' = feed_back (scaled_identity c d) i1 i ?e (W1 st)"
    and DQ1': "DQ1 ?st' = (DQ1 st)[i := ?dq]"
    and c': "cur_qparams ?st' = Some ?qp"
    and a': "all_qparams ?st' = started rn gq ?r W0 0 (Suc (i1 + i))"
    using f c a by (simp_all add: store_column_def Let_def)
  have w: "\<forall>j. Suc i \<le> j \<and> j < n \<longrightarrow> W1 ?st' ! j = W0 ! (i1 + j)"
  proof (intro allI impI)
    fix j assume j: "Suc i \<le> j \<and> j < n"
    then have e: "W1 st ! j = W0 ! (i1 + j)" using inv(3) by simp
    have "length (W0 ! (i1 + j)) = ?r" using columns_ok_nth [OF W0, of "i1 + j"] n j by simp
    with e le have "length (W1 st ! j) \<le> length ?e" by simp
    then have "feed_back (scaled_identity c d) i1 i ?e (W1 st) ! j = W1 st ! j"
      using j n inv(1) by (intro feed_back_diagonal) simp_all
    with e W1' show "W1 ?st' ! j = W0 ! (i1 + j)" by simp
  qed
  have q: "\<forall>j < Suc i. DQ1 ?st' ! j = round_trip qm (qparams_at rn gq Wt W0 (i1 + j)) (W0 ! (i1 + j))"
    using inv(2,4) n(2) DQ1' by (auto simp: nth_list_update less_Suc_eq)
  show ?thesis
    using step w q c' a' W1' DQ1' inv(1,2) cur_at_Suc [OF gs, of gq Wt W0 "i1 + i"]
    by (intro exI [of _ ?st']) simp
qed

lemma inner_loop_diagonal:
  assumes gs: "groupsize rn = - 1 \<or> 0 < groupsize rn"
    and shape: "\<And>qp w. length w = shape Wt ! 0 \<Longrightarrow> length (round_trip qm qp w) = shape Wt ! 0"
    and W0: "columns_ok (shape Wt ! 0) c W0"
    and n: "i1 + n \<le> c"
    and inv: "block_inv rn qm gq Wt W0 i1 n 0 st0"
  shows "\<exists>st. fold_err (column_step rn qm gq (scaled_identity c d) (shape Wt ! 0) W0 i1) [0..<n] st0
               = Inr st \<and> block_inv rn qm gq Wt W0 i1 n n st"
proof (rule fold_err_upt_total [where P = "block_inv rn qm gq Wt W0 i1 n"])
  show "block_inv rn qm gq Wt W0 i1 n 0 st0" by (rule inv)
next
  fix i t assume i: "i < n" and t: "block_inv rn qm gq Wt W0 i1 n i t"
  from t have
    "length (W1 t) = n" "length (DQ1 t) = n"
    "\<forall>j. i \<le> j \<and> j < n \<longrightarrow> W1 t ! j = W0 ! (i1 + j)"
    "\<forall>j < i. DQ1 t ! j = round_trip qm (qparams_at rn gq Wt W0 (i1 + j)) (W0 ! (i1 + j))"
    "cur_qparams t = cur_at rn gq Wt W0 (i1 + i)"
    "all_qparams t = started rn gq (shape Wt ! 0) W0 0 (i1 + i)"
    unfolding block_inv_def by blast+
  from column_step_diagonal [OF gs shape W0 n i this, of d]
  show "\<exists>t'. column_step rn qm gq (scaled_identity c d) (shape Wt ! 0) W0 i1 i t = Inr t' \<and>
             block_inv rn qm gq Wt W0 i1 n (Suc i) t'"
    unfolding block_inv_def by blast
qed

lemma combine_columns_zeros:
  "\<forall>h \<in> set hs. h = 0 \<Longrightarrow> combine_columns r es hs = replicate r 0"
proof -
  assume z: "\<forall>h \<in> set hs. h = 0"
  have "sum_list (map2 (\<lambda>e h. e ! i * h) es hs) = 0" for i
  proof (rule sum_list_zeros, rule ballI)
    fix x assume "x \<in> set (map2 (\<lambda>e h. e ! i * h) es hs)"
    then obtain e h where "(e, h) \<in> set (zip es hs)" "x = e ! i * h" by auto
    with z show "x = 0" by (auto dest: set_zip_rightD)
  qed
  then show ?thesis by (simp add: combine_columns_def map_replicate_const)
qed

lemma map2_minus_zeros: "length xs \<le> r \<Longrightarrow> map2 (-) xs (replicate r (0::real)) = xs"
proof (induction xs arbitrary: r)
  case Nil
  then show ?case by simp
next
  case (Cons x xs)
  then obtain r' where "r = Suc r'" by (cases r) auto
  with Cons show ?case by simp
qed

lemma propagate_block_diagonal:
  assumes "columns_ok r c W0" "i1 \<le> i2" "i2 \<le> c"
  shows "propagate_block (scaled_identity c d) r i1 i2 errs W0 = W0"
proof (rule nth_equalityI)
  show "length (propagate_block (scaled_identity c d) r i1 i2 errs W0) = length W0"
    by (simp add: propagate_block_def)
next
  fix j assume "j < length (propagate_block (scaled_identity c d) r i1 i2 errs W0)"
  then have j: "j < c" using assms(1) by (simp add: propagate_block_def columns_ok_def)
  have lj: "length (W0 ! j) = r" using columns_ok_nth [OF assms(1) j] .
  show "propagate_block (scaled_identity c d) r i1 i2 errs W0 ! j = W0 ! j"
  proof (cases "i2 \<le> j")
    case False
    with j assms(1) show ?thesis by (simp add: propagate_block_def columns_ok_def)
  next
    case True
    have "\<forall>h \<in> set (map (\<lambda>k. scaled_identity c d ! (i1 + k) ! j) [0..<i2 - i1]). h = 0"
      using True j assms(2,3) by (auto simp: nth_unit_row)
    then have "combine_columns r errs (map (\<lambda>k. scaled_identity c d ! (i1 + k) ! j) [0..<i2 - i1])
        = replicate r 0"
      by (rule combine_columns_zeros)
    with True j lj assms(1) show ?thesis
      by (simp add: propagate_block_def columns_ok_def map2_minus_zeros)
  qed
qed

lemma block_step_diagonal:
  assumes gs: "groupsize rn = - 1 \<or> 0 < groupsize rn"
    and shape: "\<And>qp w. length w = shape Wt ! 0 \<Longrightarrow> length (round_trip qm qp w) = shape Wt ! 0"
    and W0: "columns_ok (shape Wt ! 0) c W0"
    and i1: "i1 < c"
    and inv: "quant_inv rn qm gq Wt W0 c i1 s"
  shows "\<exists>s'. block_step rn qm gq (scaled_identity c d) (shape Wt ! 0) c i1 s = Inr s' \<and>
           quant_inv rn qm gq Wt W0 c (min (i1 + nat (blocksize rn)) c) s'"
proof -
  let ?r = "shape Wt ! 0"
  let ?i2 = "min (i1 + nat (blocksize rn)) c"
  let ?n = "?i2 - i1"
  let ?st0 = "\<lparr>W1 = take ?n (drop i1 (Wc s)), DQ1 = replicate ?n (replicate ?r 0),
               Err1 = replicate ?n (replicate ?r 0),
               cur_qparams = cur s, all_qparams = groups s\<rparr>"
  from inv have Wc: "Wc s = W0" and lD: "length (DQc s) = c"
    and D: "\<forall>j < i1. DQc s ! j = round_trip qm (qparams_at rn gq Wt W0 j) (W0 ! j)"
    and cu: "cur s = cur_at rn gq Wt W0 i1"
    and gr: "groups s = started rn gq ?r W0 0 i1"
    unfolding quant_inv_def by blast+
  have lW0: "length W0 = c" using W0 by (simp add: columns_ok_def)
  have le: "i1 \<le> ?i2" "?i2 \<le> c" "i1 + ?n \<le> c" "i1 + ?n = ?i2" using i1 by simp_all
  have "block_inv rn qm gq Wt W0 i1 ?n 0 ?st0"
    using Wc lW0 cu gr le by (simp add: block_inv_def)
  from inner_loop_diagonal [OF gs shape W0 le(3) this, of d] obtain st where
    f: "fold_err (column_step rn qm gq (scaled_identity c d) ?r W0 i1) [0..<?n] ?st0 = Inr st"
    and b: "block_inv rn qm gq Wt W0 i1 ?n ?n st"
    by blast
  from b have lD1: "length (DQ1 st) = ?n"
    and D1: "\<forall>j < ?n. DQ1 st ! j = round_trip qm (qparams_at rn gq Wt W0 (i1 + j)) (W0 ! (i1 + j))"
    and cu1: "cur_qparams st = cur_at rn gq Wt W0 (i1 + ?n)"
    and gr1: "all_qparams st = started rn gq ?r W0 0 (i1 + ?n)"
    unfolding block_inv_def by blast+
  let ?s' = "\<lparr>Wc = propagate_block (scaled_identity c d) ?r i1 ?i2 (Err1 st) (Wc s),
              DQc = take i1 (DQc s) @ DQ1 st @ drop ?i2 (DQc s),
              cur = cur_qparams st, groups = all_qparams st\<rparr>"
  have step: "block_step rn qm gq (scaled_identity c d) ?r c i1 s = Inr ?s'"
    using f Wc by (simp add: block_step_def Let_def bind_err_def)
  have W': "Wc ?s' = W0"
    using propagate_block_diagonal [OF W0 le(1) le(2)] Wc by simp
  have lD': "length (DQc ?s') = c" using lD lD1 le by simp
  have D': "\<forall>j < ?i2. DQc ?s' ! j = round_trip qm (qparams_at rn gq Wt W0 j) (W0 ! j)"
  proof (intro allI impI)
    fix j assume j: "j < ?i2"
    show "DQc ?s' ! j = round_trip qm (qparams_at rn gq Wt W0 j) (W0 ! j)"
    proof (cases "j < i1")
      case True
      with D lD i1 show ?thesis by (simp add: nth_append)
    next
      case False
      then have "j - i1 < ?n" using j by arith
      with D1 have "DQ1 st ! (j - i1)
          = round_trip qm (qparams_at rn gq Wt W0 (i1 + (j - i1))) (W0 ! (i1 + (j - i1)))"
        by blast
      moreover have "i1 + (j - i1) = j" using False by simp
      ultimately have "DQ1 st ! (j - i1) = round_trip qm (qparams_at rn gq Wt W0 j) (W0 ! j)"
        by simp
      moreover have "DQc ?s' ! j = DQ1 st ! (j - i1)"
        using False j lD lD1 i1 \<open>j - i1 < ?n\<close> by (simp add: nth_append)
      ultimately show ?thesis by simp
    qed
  qed
  have "quant_inv rn qm gq Wt W0 c ?i2 ?s'"
    unfolding quant_inv_def using W' lD' D' cu1 gr1 le(4) by simp
  with step show ?thesis by blast
qed

lemma outer_loop_diagonal:
  assumes gs: "groupsize rn = - 1 \<or> 0 < groupsize rn"
    and shape: "\<And>qp w. length w = shape Wt ! 0 \<Longrightarrow> length (round_trip qm qp w) = shape Wt ! 0"
    and W0: "columns_ok (shape Wt ! 0) c W0"
    and bs: "bs = nat (blocksize rn)" "0 < bs"
    and inv: "quant_inv rn qm gq Wt W0 c 0 s0"
  shows "\<exists>s. fold_err (block_step rn qm gq (scaled_identity c d) (shape Wt ! 0) c)
               (map (\<lambda>k. k * bs) [0..<(c + bs - 1) div bs]) s0 = Inr s \<and>
             quant_inv rn qm gq Wt W0 c c s"
proof -
  let ?nb = "(c + bs - 1) div bs"
  let ?P = "\<lambda>b s. quant_inv rn qm gq Wt W0 c (min (b * bs) c) s"
  have "\<exists>s. fold_err (\<lambda>k. block_step rn qm gq (scaled_identity c d) (shape Wt ! 0) c (k * bs))
               [0..<?nb] s0 = Inr s \<and> ?P ?nb s"
  proof (rule fold_err_upt_total [where P = ?P])
    show "?P 0 s0" using inv by simp
  next
    fix b t assume b: "b < ?nb" and t: "?P b t"
    from block_index_bound [OF b bs(2)] have lt: "b * bs < c" .
    then have m: "min (b * bs) c = b * bs" by simp
    from t m have "quant_inv rn qm gq Wt W0 c (b * bs) t" by simp
    from block_step_diagonal [OF gs shape W0 lt this, of d] obtain t' where
      1: "block_step rn qm gq (scaled_identity c d) (shape Wt ! 0) c (b * bs) t = Inr t'" and
      2: "quant_inv rn qm gq Wt W0 c (min (b * bs + nat (blocksize rn)) c) t'"
      by blast
    have "min (b * bs + nat (blocksize rn)) c = min (Suc b * bs) c"
      using bs(1) by (simp add: add.commute)
    with 1 2 show "\<exists>t'. block_step rn qm gq (scaled_identity c d) (shape Wt ! 0) c (b * bs) t = Inr t'
        \<and> ?P (Suc b) t'"
      by auto
  qed
  moreover have "min (?nb * bs) c = c" using block_count_covers [OF bs(2), of c] by simp
  ultimately show ?thesis by (simp add: fold_err_map)
qed

lemma group_starts_nonempty: "0 < gs \<Longrightarrow> 0 < c \<Longrightarrow> group_starts gs 0 c \<noteq> []"
proof -
  assume "0 < gs" "0 < c"
  then have "0 \<in> set (group_starts gs 0 c)" by (simp add: group_starts_def)
  then show ?thesis by auto
qed

lemma group_starts_whole [simp]: "group_starts (- 1) a b = []"
  by (simp add: group_starts_def)

lemma faster_quant_groups_diagonal:
  assumes m: "is_matrix Wt" and sq: "square (shape Wt ! 1) H" and c: "0 < shape Wt ! 1"
    and H: "damped_hessian rn H = scaled_identity (shape Wt ! 1) h" "0 < h"
    and bs: "0 < blocksize rn"
    and gs: "groupsize rn = - 1 \<or> 0 < groupsize rn"
    and shape: "\<And>qp w. length w = shape Wt ! 0 \<Longrightarrow> length (round_trip qm qp w) = shape Wt ! 0"
    and W0: "W0 = zero_dead_columns (dead_of H) (columns_of Wt)"
  shows "faster_quant_groups rn qm gq H Wt =
     Inr (map (\<lambda>j. round_trip qm (qparams_at rn gq Wt W0 j) (W0 ! j)) [0..<shape Wt ! 1],
          if groupsize rn = - 1 then [gq Wt]
          else started rn gq (shape Wt ! 0) W0 0 (shape Wt ! 1))"
proof -
  define r where "r = shape Wt ! 0"
  define c where "c = shape Wt ! 1"
  define bs where "bs = nat (blocksize rn)"
  define d where "d = sqrt (1 / h)"
  note shape' = shape [folded r_def]
  have cpos: "0 < c" using c by (simp add: c_def)
  have inv: "inverse_factor (damped_hessian rn H) = Inr (scaled_identity c d)"
    using H by (simp add: inverse_factor_scaled_identity c_def d_def)
  define starts where "starts = map (\<lambda>k. k * bs) [0..<(c + bs - 1) div bs]"
  have rg: "py_range c (blocksize rn) = Inr starts"
    using bs by (simp add: py_range_def bs_def starts_def)
  have ok: "columns_ok (shape Wt ! 0) c W0"
    using initial_state_ok [OF sq, of rn gq] W0
    by (simp add: state_ok_def initial_state_def c_def)
  have i0: "quant_inv rn qm gq Wt W0 c 0 (initial_state rn gq H Wt)"
    using W0
    by (simp add: quant_inv_def initial_state_def cur_at_def started_def group_starts_def c_def)
  have b: "0 < bs" using bs by (simp add: bs_def)
  from outer_loop_diagonal [OF gs shape ok bs_def b i0, of d] obtain s where
    f: "fold_err (block_step rn qm gq (scaled_identity c d) r c) starts
          (initial_state rn gq H Wt) = Inr s"
    and q: "quant_inv rn qm gq Wt W0 c c s"
    unfolding r_def starts_def by blast
  from q have lD: "length (DQc s) = c"
    and D: "\<forall>j < c. DQc s ! j = round_trip qm (qparams_at rn gq Wt W0 j) (W0 ! j)"
    and cu: "cur s = cur_at rn gq Wt W0 c"
    and gr: "groups s = started rn gq r W0 0 c"
    unfolding quant_inv_def r_def by blast+
  have DQ: "DQc s = map (\<lambda>j. round_trip qm (qparams_at rn gq Wt W0 j) (W0 ! j)) [0..<c]"
    using lD D by (intro nth_equalityI) simp_all
  have fin: "(if groups s = [] then (case cur s of None \<Rightarrow> Inl UnboundLocalError
                   | Some qp \<Rightarrow> Inr (DQc s, [qp]))
             else Inr (DQc s, groups s))
        = Inr (DQc s, if groupsize rn = - 1 then [gq Wt] else started rn gq r W0 0 c)"
  proof (cases "groupsize rn = - 1")
    case True
    with gr cu show ?thesis by (simp add: started_def cur_at_def)
  next
    case False
    with gs have "0 < groupsize rn" by simp
    from group_starts_nonempty [OF this cpos] have "groups s \<noteq> []"
      using gr by (simp add: started_def)
    with False gr show ?thesis by simp
  qed
  have sq': "square c H" using sq by (simp add: c_def)
  have "faster_quant_groups rn qm gq H Wt =
     Inr (map (\<lambda>j. round_trip qm (qparams_at rn gq Wt W0 j) (W0 ! j)) [0..<c],
          if groupsize rn = - 1 then [gq Wt] else started rn gq r W0 0 c)"
    unfolding faster_quant_groups_def Let_def r_def [symmetric] c_def [symmetric]
    using m sq' by (simp add: inv rg f bind_err_def fin DQ [symmetric])
  then show ?thesis by (simp only: r_def c_def)
qed

lemma diag_of_scaled_identity: "diag_of (scaled_identity n c) = replicate n c"
  by (auto simp: diag_of_def nth_unit_row intro: nth_equalityI)

lemma set_dead_diag_scaled_identity:
  "c \<noteq> 0 \<Longrightarrow> set_dead_diag (scaled_identity n c) = scaled_identity n c"
  by (auto simp: set_dead_diag_def nth_unit_row intro: nth_equalityI)

lemma add_damp_scaled_identity:
  "add_damp x (scaled_identity n c) = scaled_identity n (c + x)"
  by (auto simp: add_damp_def scaled_identity_def unit_row_def intro: nth_equalityI)

lemma damped_hessian_identity:
  "0 < n \<Longrightarrow> damped_hessian rn (scaled_identity n 1) = scaled_identity n (1 + percdamp rn)"
  by (simp add: damped_hessian_def Let_def set_dead_diag_scaled_identity diag_of_scaled_identity
      mean_def add_damp_scaled_identity sum_list_replicate)

lemma zero_dead_columns_none:
  "length cs = n \<Longrightarrow> zero_dead_columns (replicate n False) cs = cs"
  by (auto simp: zero_dead_columns_def intro: nth_equalityI)

lemma square_scaled_identity: "square n (scaled_identity n c)"
  by (simp add: square_def list_all_length)

lemma faster_quant_groups_identity:
  assumes m: "is_matrix Wt" and c: "0 < shape Wt ! 1"
    and damp: "0 < 1 + percdamp rn"
    and bs: "0 < blocksize rn"
    and gs: "groupsize rn = - 1 \<or> 0 < groupsize rn"
    and shape: "\<And>qp w. length w = shape Wt ! 0 \<Longrightarrow> length (round_trip qm qp w) = shape Wt ! 0"
  shows "faster_quant_groups rn qm gq (scaled_identity (shape Wt ! 1) 1) Wt =
     Inr (map (\<lambda>j. round_trip qm (qparams_at rn gq Wt (columns_of Wt) j) (column Wt j))
            [0..<shape Wt ! 1],
          if groupsize rn = - 1 then [gq Wt]
          else started rn gq (shape Wt ! 0) (columns_of Wt) 0 (shape Wt ! 1))"
proof -
  have W0: "columns_of Wt
      = zero_dead_columns (dead_of (scaled_identity (shape Wt ! 1) 1)) (columns_of Wt)"
    by (simp add: dead_of_def diag_of_scaled_identity zero_dead_columns_none columns_of_def)
  have "map (\<lambda>j. round_trip qm (qparams_at rn gq Wt (columns_of Wt) j) (columns_of Wt ! j))
            [0..<shape Wt ! 1]
      = map (\<lambda>j. round_trip qm (qparams_at rn gq Wt (columns_of Wt) j) (column Wt j))
            [0..<shape Wt ! 1]"
    by (simp add: columns_of_def)
  with faster_quant_groups_diagonal [OF m square_scaled_identity c
      damped_hessian_identity [OF c] damp bs gs shape W0, of gq]
  show ?thesis by simp
qed

subsection \<open>Shapes and the number of groups\<close>

lemma length_data_from_columns: "length (data (from_columns r cs)) = r * length cs"
  by (simp add: from_columns_def length_concat comp_def sum_list_triv)

lemma shape_matrix: "is_matrix t \<Longrightarrow> shape t = [shape t ! 0, shape t ! 1]"
proof -
  assume "is_matrix t"
  then have "length (shape t) = 2" by (simp add: is_matrix_def)
  then show ?thesis
    by (intro nth_equalityI) (auto simp: less_Suc_eq numeral_2_eq_2)
qed

lemma faster_quant_Inr:
  assumes "faster_quant rn H Wt = Inr (Q, DQr, qp)"
  shows "\<exists>qm gq cs qs.
     qmode rn = Some qm \<and> get_qparams_func qm = Some gq \<and>
     faster_quant_groups rn qm gq H Wt = Inr (cs, qs) \<and>
     qp = combine_qparams_list_func qm qs \<and>
     Q = quantize_func qm (from_columns (shape Wt ! 0) cs) qp \<and>
     DQr = to_orig_dtype rn (from_columns (shape Wt ! 0) cs)"
  using assms
  by (auto simp: faster_quant_def bind_err_def Let_def
      split: option.splits sum.splits prod.splits)

lemma ceil_div_exact:
  fixes g :: int
  assumes "0 < g" "g dvd c"
  shows "(c + g - 1) div g = c div g"
proof -
  from assms(2) obtain k where k: "c = g * k" by (auto elim: dvdE)
  have "(g * k + (g - 1)) div g = k" using assms(1) by (intro div_add_small) simp_all
  moreover have "g * k + (g - 1) = c + g - 1" using k by simp
  ultimately show ?thesis using k assms(1) by simp
qed

lemma plain_runner_fields:
  "qmode (plain_runner bs gs qm) = Some qm"
  "blocksize (plain_runner bs gs qm) = bs"
  "groupsize (plain_runner bs gs qm) = gs"
  "percdamp (plain_runner bs gs qm) = 1 / 100"
  "orig_dtype (plain_runner bs gs qm) = (\<lambda>x. x)"
  by (simp_all add: plain_runner_def configure_quantization_mode_def init_def)

lemma absmax_mode_fields:
  "get_qparams_func (absmax_mode g) = Some absmax_qparams"
  "combine_qparams_list_func (absmax_mode g) = concat"
  by (simp_all add: absmax_mode_def)

lemma round_trip_absmax:
  "round_trip (absmax_mode g) qp w
     = map (\<lambda>x. of_int \<lfloor>x / scale_for g qp 0\<rfloor> * scale_for g qp 0) w"
  by (auto simp: round_trip_def dequantize_column_def quantize_column_def flatten_def
      unsqueeze1_def absmax_mode_def intro: nth_equalityI)

lemma quantize_column_absmax:
  "quantize_column (absmax_mode g) qp w = map (\<lambda>x. of_int \<lfloor>x / scale_for g qp 0\<rfloor>) w"
  by (auto simp: quantize_column_def flatten_def unsqueeze1_def absmax_mode_def
      intro: nth_equalityI)

lemma is_matrix_row_weight: "is_matrix (row_weight ws)"
  by (simp add: is_matrix_def row_weight_def)

lemma shape_row_weight: "shape (row_weight ws) ! 0 = 1" "shape (row_weight ws) ! 1 = length ws"
  by (simp_all add: row_weight_def)

lemma groups_three_columns:
  "faster_quant_groups (plain_runner 2 2 (absmax_mode 2)) (absmax_mode 2) absmax_qparams
     (scaled_identity 3 1) (row_weight [1, 5 / 2, 3])
   = Inr ([[5 / 8], [5 / 2], [3]], [[5 / 8], [3 / 4]])"
proof -
  let ?rn = "plain_runner 2 2 (absmax_mode 2) :: real list runner"
  let ?W = "row_weight [1, 5 / 2, 3]"
  have c: "shape ?W ! 1 = 3" and r: "shape ?W ! 0 = 1" by (simp_all add: row_weight_def)
  have "faster_quant_groups ?rn (absmax_mode 2) absmax_qparams (scaled_identity (shape ?W ! 1) 1) ?W
      = Inr (map (\<lambda>j. round_trip (absmax_mode 2)
                       (qparams_at ?rn absmax_qparams ?W (columns_of ?W) j) (column ?W j))
               [0..<shape ?W ! 1],
             if groupsize ?rn = - 1 then [absmax_qparams ?W]
             else started ?rn absmax_qparams (shape ?W ! 0) (columns_of ?W) 0 (shape ?W ! 1))"
    by (rule faster_quant_groups_identity)
       (simp_all add: is_matrix_def plain_runner_fields round_trip_absmax row_weight_def)
  also have "\<dots> = Inr ([[5 / 8], [5 / 2], [3]], [[5 / 8], [3 / 4]])"
    unfolding c r
    by (simp add: plain_runner_fields round_trip_absmax qparams_at_def started_def
        group_starts_def group_slice_def current_group_def columns_of_def column_def
        row_weight_def from_columns_def py_slice_def slice_index_def absmax_qparams_def
        absmax_def scale_for_def upt_rec Let_def)
  finally show ?thesis by (simp only: c)
qed

lemma row_weight_sel: "shape (row_weight ws) = [1, length ws]" "data (row_weight ws) = ws"
  by (simp_all add: row_weight_def)

lemma identity_three: "scaled_identity 3 1 = [[1, 0, 0], [0, 1, 0], [0, 0, 1]]"
  by (simp add: scaled_identity_def unit_row_def upt_rec numeral_3_eq_3)

lemma faster_quant_three_columns:
  "faster_quant (plain_runner 2 2 (absmax_mode 2)) [[1, 0, 0], [0, 1, 0], [0, 0, 1]]
     (row_weight [1, 5 / 2, 3])
   = Inr (row_weight [1, 4, 4], row_weight [5 / 8, 5 / 2, 3], [5 / 8, 3 / 4])"
  unfolding faster_quant_def identity_three [symmetric]
  by (simp add: plain_runner_fields absmax_mode_fields groups_three_columns bind_err_def)
     (simp add: from_columns_def to_orig_dtype_def plain_runner_fields absmax_mode_def
      row_weight_def scale_for_def upt_rec Let_def)

lemma all_qparams_three_columns:
  "faster_quant_all_qparams (plain_runner 2 2 (absmax_mode 2)) [[1, 0, 0], [0, 1, 0], [0, 0, 1]]
     (row_weight [1, 5 / 2, 3])
   = Inr [[5 / 8], [3 / 4]]"
  unfolding faster_quant_all_qparams_def identity_three [symmetric]
  by (simp add: plain_runner_fields absmax_mode_fields groups_three_columns bind_err_def)

lemma groups_dead_column:
  "faster_quant_groups (plain_runner 2 (- 1) (absmax_mode 2)) (absmax_mode 2) absmax_qparams
     [[1, 0], [0, 0]] (row_weight [4, 5])
   = Inr ([[15 / 4], [0]], [[5 / 4]])"
proof -
  let ?rn = "plain_runner 2 (- 1) (absmax_mode 2) :: real list runner"
  let ?W = "row_weight [4, 5]"
  let ?H = "[[1, 0], [0, 0]] :: matrix"
  let ?Z = "zero_dead_columns (dead_of ?H) (columns_of ?W)"
  have c: "shape ?W ! 1 = 2" and r: "shape ?W ! 0 = 1" by (simp_all add: row_weight_def)
  have Z: "?Z = [[4], [0]]"
    by (simp add: zero_dead_columns_def dead_of_def diag_of_def columns_of_def column_def
        row_weight_def upt_rec)
  have d: "damped_hessian ?rn ?H = scaled_identity (shape ?W ! 1) (101 / 100)"
    unfolding c
    by (simp add: damped_hessian_def set_dead_diag_def diag_of_def mean_def add_damp_def
        scaled_identity_def unit_row_def upt_rec plain_runner_fields Let_def numeral_2_eq_2)
  have "faster_quant_groups ?rn (absmax_mode 2) absmax_qparams ?H ?W
      = Inr (map (\<lambda>j. round_trip (absmax_mode 2)
                       (qparams_at ?rn absmax_qparams ?W ?Z j) (?Z ! j))
               [0..<shape ?W ! 1],
             if groupsize ?rn = - 1 then [absmax_qparams ?W]
             else started ?rn absmax_qparams (shape ?W ! 0) ?Z 0 (shape ?W ! 1))"
    by (rule faster_quant_groups_diagonal [OF _ _ _ d])
       (simp_all add: is_matrix_def plain_runner_fields round_trip_absmax row_weight_def
        square_def)
  also have "\<dots> = Inr ([[15 / 4], [0]], [[5 / 4]])"
    unfolding c r Z
    by (simp add: plain_runner_fields round_trip_absmax qparams_at_def row_weight_def
        absmax_qparams_def absmax_def scale_for_def upt_rec)
  finally show ?thesis .
qed

lemma faster_quant_dead_column:
  "faster_quant (plain_runner 2 (- 1) (absmax_mode 2)) [[1, 0], [0, 0]] (row_weight [4, 5])
   = Inr (row_weight [3, 0], row_weight [15 / 4, 0], [5 / 4])"
  unfolding faster_quant_def
  by (simp add: plain_runner_fields absmax_mode_fields groups_dead_column bind_err_def)
     (simp add: from_columns_def to_orig_dtype_def plain_runner_fields absmax_mode_def
      row_weight_def scale_for_def upt_rec Let_def)

lemma all_qparams_dead_column:
  "faster_quant_all_qparams (plain_runner 2 (- 1) (absmax_mode 2)) [[1, 0], [0, 0]]
     (row_weight [4, 5])
   = Inr [[5 / 4]]"
  unfolding faster_quant_all_qparams_def
  by (simp add: plain_runner_fields absmax_mode_fields groups_dead_column bind_err_def)

text \<open>
  Claim C7 as stated fails. A weight with three columns and the group size \<open>2\<close> has a group
  of two columns and a group of one column: the per-group list has two entries, which is
  neither \<open>3 / 2\<close> nor its integer part.
\<close>

theorem group_count_counterexample:
  "faster_quant (plain_runner 2 2 (absmax_mode 2)) [[1, 0, 0], [0, 1, 0], [0, 0, 1]]
     (row_weight [1, 5 / 2, 3])
     = Inr (row_weight [1, 4, 4], row_weight [5 / 8, 5 / 2, 3], [5 / 8, 3 / 4]) \<and>
   faster_quant_all_qparams (plain_runner 2 2 (absmax_mode 2)) [[1, 0, 0], [0, 1, 0], [0, 0, 1]]
     (row_weight [1, 5 / 2, 3])
     = Inr [[5 / 8], [3 / 4]] \<and>
   shape (row_weight [1, 5 / 2, 3]) = [1, 3] \<and>
   groupsize (plain_runner 2 2 (absmax_mode 2)) = 2 \<and>
   real (length [[5 / 8], [3 / 4 :: real]]) \<noteq> 3 / 2 \<and>
   length [[5 / 8], [3 / 4 :: real]] \<noteq> 3 div 2"
  by (simp add: faster_quant_three_columns all_qparams_three_columns plain_runner_fields
      row_weight_sel)

text \<open>
  Claim C7, amended. Whenever \<^verbatim>\<open>faster_quant\<close> returns \<open>(Q, DQ, qparams)\<close> for a weight
  of shape \<open>[out, in]\<close>: \<open>DQ\<close> has the shape of the weight, with \<open>out * in\<close> entries;
  \<open>Q\<close> is what \<^verbatim>\<open>quantize_func\<close> returns for a tensor of the shape of the weight;
  \<open>qparams\<close> is the combination of the per-group list, which has one entry with whole-tensor
  groups and, for a group size \<open>g > 0\<close>, one entry per group started: \<open>in / g\<close> rounded up,
  which is \<open>in / g\<close> when \<open>g\<close> divides \<open>in\<close>.
\<close>

theorem faster_quant_shapes_and_groups:
  assumes "faster_quant rn H Wt = Inr (Q, DQr, qp)"
  shows "shape DQr = shape Wt \<and>
     length (data DQr) = shape Wt ! 0 * shape Wt ! 1 \<and>
     (\<exists>qm qs DQt.
        qmode rn = Some qm \<and> faster_quant_all_qparams rn H Wt = Inr qs \<and>
        qp = combine_qparams_list_func qm qs \<and>
        Q = quantize_func qm DQt qp \<and> shape DQt = shape Wt \<and>
        (groupsize rn = - 1 \<longrightarrow> length qs = 1) \<and>
        (0 < groupsize rn \<longrightarrow>
           int (length qs) = (int (shape Wt ! 1) + groupsize rn - 1) div groupsize rn) \<and>
        (0 < groupsize rn \<and> groupsize rn dvd int (shape Wt ! 1) \<longrightarrow>
           int (length qs) = int (shape Wt ! 1) div groupsize rn))"
proof -
  from faster_quant_Inr [OF assms] obtain qm gq cs qs where
    qm: "qmode rn = Some qm" and gq: "get_qparams_func qm = Some gq" and
    g: "faster_quant_groups rn qm gq H Wt = Inr (cs, qs)" and
    qp: "qp = combine_qparams_list_func qm qs" and
    Q: "Q = quantize_func qm (from_columns (shape Wt ! 0) cs) qp" and
    DQr: "DQr = to_orig_dtype rn (from_columns (shape Wt ! 0) cs)"
    by blast
  from faster_quant_groups_Inr [OF g] have m: "is_matrix Wt" by simp
  from faster_quant_groups_shapes [OF g] have
    cs: "columns_ok (shape Wt ! 0) (shape Wt ! 1) cs" and
    w: "groupsize rn = - 1 \<longrightarrow> length qs = 1" and
    l: "0 < groupsize rn \<longrightarrow> length qs = length (group_starts (groupsize rn) 0 (shape Wt ! 1))"
    by simp_all
  have lcs: "length cs = shape Wt ! 1" using cs by (simp add: columns_ok_def)
  have sh: "shape (from_columns (shape Wt ! 0) cs) = shape Wt"
    using shape_matrix [OF m] lcs by (simp add: from_columns_def)
  have 1: "shape DQr = shape Wt" using sh DQr by (simp add: to_orig_dtype_def)
  have 2: "length (data DQr) = shape Wt ! 0 * shape Wt ! 1"
    using DQr lcs length_data_from_columns [of "shape Wt ! 0" cs] by (simp add: to_orig_dtype_def)
  have all: "faster_quant_all_qparams rn H Wt = Inr qs"
    using qm gq g by (simp add: faster_quant_all_qparams_def bind_err_def)
  have c: "0 < groupsize rn \<longrightarrow>
      int (length qs) = (int (shape Wt ! 1) + groupsize rn - 1) div groupsize rn"
    using l length_group_starts [of "groupsize rn" "shape Wt ! 1"] by auto
  have e: "0 < groupsize rn \<and> groupsize rn dvd int (shape Wt ! 1) \<longrightarrow>
      int (length qs) = int (shape Wt ! 1) div groupsize rn"
    using c ceil_div_exact [of "groupsize rn" "int (shape Wt ! 1)"] by auto
  from qm all qp Q sh w c e have
    "\<exists>qm qs DQt.
        qmode rn = Some qm \<and> faster_quant_all_qparams rn H Wt = Inr qs \<and>
        qp = combine_qparams_list_func qm qs \<and>
        Q = quantize_func qm DQt qp \<and> shape DQt = shape Wt \<and>
        (groupsize rn = - 1 \<longrightarrow> length qs = 1) \<and>
        (0 < groupsize rn \<longrightarrow>
           int (length qs) = (int (shape Wt ! 1) + groupsize rn - 1) div groupsize rn) \<and>
        (0 < groupsize rn \<and> groupsize rn dvd int (shape Wt ! 1) \<longrightarrow>
           int (length qs) = int (shape Wt ! 1) div groupsize rn)"
    by blast
  with 1 2 show ?thesis by blast
qed

theorem faster_quant_shapes_and_groups_witness:
  "faster_quant (plain_runner 2 2 (absmax_mode 2)) [[1, 0, 0], [0, 1, 0], [0, 0, 1]]
     (row_weight [1, 5 / 2, 3])
     = Inr (row_weight [1, 4, 4], row_weight [5 / 8, 5 / 2, 3], [5 / 8, 3 / 4]) \<and>
   shape (row_weight [5 / 8, 5 / 2, 3]) = shape (row_weight [1, 5 / 2, 3]) \<and>
   length (data (row_weight [5 / 8, 5 / 2, 3])) = 1 * 3 \<and>
   faster_quant_all_qparams (plain_runner 2 2 (absmax_mode 2)) [[1, 0, 0], [0, 1, 0], [0, 0, 1]]
     (row_weight [1, 5 / 2, 3])
     = Inr [[5 / 8], [3 / 4]] \<and>
   0 < groupsize (plain_runner 2 2 (absmax_mode 2) :: real list runner) \<and>
   int (length [[5 / 8], [3 / 4 :: real]]) = (3 + 2 - 1) div 2 \<and>
   faster_quant (plain_runner 2 (- 1) (absmax_mode 2)) [[1, 0], [0, 0]] (row_weight [4, 5])
     = Inr (row_weight [3, 0], row_weight [15 / 4, 0], [5 / 4]) \<and>
   faster_quant_all_qparams (plain_runner 2 (- 1) (absmax_mode 2)) [[1, 0], [0, 0]]
     (row_weight [4, 5])
     = Inr [[5 / 4]] \<and>
   groupsize (plain_runner 2 (- 1) (absmax_mode 2) :: real list runner) = - 1 \<and>
   length [[5 / 4 :: real]] = 1"
  using faster_quant_shapes_and_groups [OF faster_quant_three_columns]
    faster_quant_shapes_and_groups [OF faster_quant_dead_column]
  by (simp add: faster_quant_three_columns all_qparams_three_columns faster_quant_dead_column
      all_qparams_dead_column plain_runner_fields row_weight_sel)

subsection \<open>Whole-tensor groups\<close>

lemma fold_err_invariant:
  assumes "fold_err f xs s = Inr s'" and "P s"
    and "\<And>x t t'. x \<in> set xs \<Longrightarrow> P t \<Longrightarrow> f x t = Inr t' \<Longrightarrow> P t'"
  shows "P s'"
  using assms
proof (induction xs arbitrary: s)
  case Nil
  then show ?case by simp
next
  case (Cons x xs)
  from Cons.prems(1) obtain t where t: "f x s = Inr t" and r: "fold_err f xs t = Inr s'"
    by (cases "f x s") auto
  have "P t" using Cons.prems(2,3) t by auto
  with Cons.IH [OF r] Cons.prems(3) show ?case by auto
qed

lemma inner_loop_groups:
  assumes "fold_err (column_step rn qm gq Hinv r Wcols i1) [0..<n] st0 = Inr st"
    and "cur_qparams st0 = cur0" "all_qparams st0 = all0"
  shows "groups_ok rn gq r Wcols cur0 all0 i1 (i1 + n) st"
proof (rule fold_err_upt_invariant [OF assms(1),
      of "\<lambda>i st. groups_ok rn gq r Wcols cur0 all0 i1 (i1 + i) st"])
  show "groups_ok rn gq r Wcols cur0 all0 i1 (i1 + 0) st0"
    using assms(2,3) by (simp add: groups_ok_def started_def)
next
  fix i t t'
  assume "i < n" "groups_ok rn gq r Wcols cur0 all0 i1 (i1 + i) t"
    "column_step rn qm gq Hinv r Wcols i1 i t = Inr t'"
  then show "groups_ok rn gq r Wcols cur0 all0 i1 (i1 + Suc i) t'"
    using column_step_groups by blast
qed

lemma block_step_whole_tensor:
  assumes "block_step rn qm gq Hinv r c i1 s = Inr s'" "groupsize rn = - 1"
  shows "cur s' = cur s \<and> groups s' = groups s"
proof -
  from block_step_Inr [OF assms(1)] obtain st where
    f: "fold_err (column_step rn qm gq Hinv r (Wc s) i1)
          [0..<min (i1 + nat (blocksize rn)) c - i1]
          \<lparr>W1 = take (min (i1 + nat (blocksize rn)) c - i1) (drop i1 (Wc s)),
           DQ1 = replicate (min (i1 + nat (blocksize rn)) c - i1) (replicate r 0),
           Err1 = replicate (min (i1 + nat (blocksize rn)) c - i1) (replicate r 0),
           cur_qparams = cur s, all_qparams = groups s\<rparr> = Inr st"
    and s': "s' = \<lparr>Wc = propagate_block Hinv r i1 (min (i1 + nat (blocksize rn)) c) (Err1 st) (Wc s),
           DQc = take i1 (DQc s) @ DQ1 st @ drop (min (i1 + nat (blocksize rn)) c) (DQc s),
           cur = cur_qparams st, groups = all_qparams st\<rparr>"
    by blast
  from inner_loop_groups [OF f, of "cur s" "groups s"]
  have "groups_ok rn gq r (Wc s) (cur s) (groups s) i1
          (i1 + (min (i1 + nat (blocksize rn)) c - i1)) st" by simp
  with assms(2) s' show ?thesis by (simp add: groups_ok_def started_def)
qed

lemma faster_quant_groups_whole_tensor:
  assumes "faster_quant_groups rn qm gq H Wt = Inr (cs, qs)" "groupsize rn = - 1"
  shows "qs = [gq Wt]"
proof -
  from faster_quant_groups_Inr [OF assms(1)] obtain Hinv starts s where
    f: "fold_err (block_step rn qm gq Hinv (shape Wt ! 0) (shape Wt ! 1)) starts
          (initial_state rn gq H Wt) = Inr s" and
    e: "groups s = [] \<longrightarrow> (\<exists>qp. cur s = Some qp \<and> qs = [qp])" and
    n: "groups s \<noteq> [] \<longrightarrow> qs = groups s"
    by blast
  have "cur s = Some (gq Wt) \<and> groups s = []"
  proof (rule fold_err_invariant [OF f, of "\<lambda>s. cur s = Some (gq Wt) \<and> groups s = []"])
    show "cur (initial_state rn gq H Wt) = Some (gq Wt) \<and> groups (initial_state rn gq H Wt) = []"
      using assms(2) by (simp add: initial_state_def)
  next
    fix x t t'
    assume "cur t = Some (gq Wt) \<and> groups t = []"
      "block_step rn qm gq Hinv (shape Wt ! 0) (shape Wt ! 1) x t = Inr t'"
    then show "cur t' = Some (gq Wt) \<and> groups t' = []"
      using block_step_whole_tensor [OF _ assms(2)] by metis
  qed
  with e show ?thesis by auto
qed

lemma groups_dead_column_grouped:
  "faster_quant_groups (plain_runner 2 2 (absmax_mode 2)) (absmax_mode 2) absmax_qparams
     [[1, 0], [0, 0]] (row_weight [4, 5])
   = Inr ([[4], [0]], [[1]])"
proof -
  let ?rn = "plain_runner 2 2 (absmax_mode 2) :: real list runner"
  let ?W = "row_weight [4, 5]"
  let ?H = "[[1, 0], [0, 0]] :: matrix"
  let ?Z = "zero_dead_columns (dead_of ?H) (columns_of ?W)"
  have c: "shape ?W ! 1 = 2" and r: "shape ?W ! 0 = 1" by (simp_all add: row_weight_def)
  have Z: "?Z = [[4], [0]]"
    by (simp add: zero_dead_columns_def dead_of_def diag_of_def columns_of_def column_def
        row_weight_def upt_rec)
  have d: "damped_hessian ?rn ?H = scaled_identity (shape ?W ! 1) (101 / 100)"
    unfolding c
    by (simp add: damped_hessian_def set_dead_diag_def diag_of_def mean_def add_damp_def
        scaled_identity_def unit_row_def upt_rec plain_runner_fields Let_def numeral_2_eq_2)
  have "faster_quant_groups ?rn (absmax_mode 2) absmax_qparams ?H ?W
      = Inr (map (\<lambda>j. round_trip (absmax_mode 2)
                       (qparams_at ?rn absmax_qparams ?W ?Z j) (?Z ! j))
               [0..<shape ?W ! 1],
             if groupsize ?rn = - 1 then [absmax_qparams ?W]
             else started ?rn absmax_qparams (shape ?W ! 0) ?Z 0 (shape ?W ! 1))"
    by (rule faster_quant_groups_diagonal [OF _ _ _ d])
       (simp_all add: is_matrix_def plain_runner_fields round_trip_absmax row_weight_def
        square_def)
  also have "\<dots> = Inr ([[4], [0]], [[1]])"
    unfolding c r Z
    by (simp add: plain_runner_fields round_trip_absmax qparams_at_def started_def
        group_starts_def group_slice_def current_group_def row_weight_def from_columns_def
        py_slice_def slice_index_def absmax_qparams_def absmax_def scale_for_def upt_rec Let_def)
  finally show ?thesis .
qed

lemma faster_quant_dead_column_grouped:
  "faster_quant (plain_runner 2 2 (absmax_mode 2)) [[1, 0], [0, 0]] (row_weight [4, 5])
   = Inr (row_weight [4, 0], row_weight [4, 0], [1])"
  unfolding faster_quant_def
  by (simp add: plain_runner_fields absmax_mode_fields groups_dead_column_grouped bind_err_def)
     (simp add: from_columns_def to_orig_dtype_def plain_runner_fields absmax_mode_def
      row_weight_def scale_for_def upt_rec Let_def)

text \<open>
  Claim C5 on a weight with a dead column. The second input dimension is dead
  (\<open>H[1, 1] = 0\<close>), so line 483 zeroes the second column of the weight \<open>[4, 5]\<close>. With
  whole-tensor groups the single qparams are those of the weight as it was passed in, where
  the largest entry is the \<open>5\<close> of the dead column: the scale is \<open>5 / 4\<close>, and the first column
  reconstructs to \<open>15 / 4\<close>. The qparams of the weight after the dead column was zeroed,
  which the claim describes, have the scale \<open>1\<close>; on the same Hessian and weight the loop
  for groups of two columns computes these, and reconstructs the first column to \<open>4\<close>.
\<close>

theorem whole_tensor_qparams_ignore_dead_columns:
  "faster_quant (plain_runner 2 (- 1) (absmax_mode 2)) [[1, 0], [0, 0]] (row_weight [4, 5])
     = Inr (row_weight [3, 0], row_weight [15 / 4, 0], [5 / 4]) \<and>
   faster_quant_all_qparams (plain_runner 2 (- 1) (absmax_mode 2)) [[1, 0], [0, 0]]
     (row_weight [4, 5]) = Inr [[5 / 4]] \<and>
   absmax_qparams (row_weight [4, 5]) = [5 / 4] \<and>
   zero_dead_columns (dead_of [[1, 0], [0, 0]]) (columns_of (row_weight [4, 5])) = [[4], [0]] \<and>
   absmax_qparams (from_columns 1 [[4], [0]]) = [1] \<and>
   faster_quant (plain_runner 2 2 (absmax_mode 2)) [[1, 0], [0, 0]] (row_weight [4, 5])
     = Inr (row_weight [4, 0], row_weight [4, 0], [1])"
  by (simp add: faster_quant_dead_column all_qparams_dead_column
      faster_quant_dead_column_grouped)
     (simp add: zero_dead_columns_def dead_of_def diag_of_def columns_of_def column_def
      row_weight_def upt_rec absmax_qparams_def absmax_def from_columns_def)

subsection \<open>The identity Hessian\<close>

lemma ceil_div_Suc:
  fixes g :: nat
  assumes "0 < g"
  shows "(Suc c + g - 1) div g = c div g + 1"
    and "c mod g = 0 \<Longrightarrow> (c + g - 1) div g = c div g"
    and "c mod g \<noteq> 0 \<Longrightarrow> (c + g - 1) div g = c div g + 1"
proof -
  have "(Suc c + g - 1) div g = (c + g) div g" by simp
  also have "\<dots> = c div g + 1" using assms by simp
  finally show "(Suc c + g - 1) div g = c div g + 1" .
next
  assume z: "c mod g = 0"
  have e: "c = g * (c div g)" using z by (simp add: mod_eq_0_iff_dvd)
  show "(c + g - 1) div g = c div g"
  proof (rule div_nat_eqI)
    show "g * (c div g) \<le> c + g - 1" using e assms by arith
    have "c + g - 1 < c + g" using assms by arith
    then show "c + g - 1 < g * Suc (c div g)" using e by simp
  qed
next
  assume nz: "c mod g \<noteq> 0"
  have e: "c = g * (c div g) + c mod g" by simp
  have m: "c mod g < g" using assms by simp
  show "(c + g - 1) div g = c div g + 1"
  proof (rule div_nat_eqI)
    have "g * (c div g) + g \<le> c + g - 1" using e nz by arith
    then show "g * (c div g + 1) \<le> c + g - 1" by simp
    have "c + g - 1 < g * (c div g) + g + g" using e m by arith
    then show "c + g - 1 < g * Suc (c div g + 1)" by simp
  qed
qed

lemma group_starts_multiples:
  assumes "0 < gs"
  shows "group_starts gs 0 c = map (\<lambda>k. k * nat gs) [0..<(c + nat gs - 1) div nat gs]"
proof (induction c)
  case 0
  from assms show ?case by (simp add: group_starts_def)
next
  case (Suc c)
  define g where "g = nat gs"
  have g: "0 < g" using assms by (simp add: g_def)
  have gs: "gs \<noteq> - 1" using assms by simp
  have mod: "(int c mod gs = 0) = (c mod g = 0)"
  proof -
    have "int (c mod g) = int c mod gs" using assms by (simp add: zmod_int g_def)
    then show ?thesis by (metis of_nat_eq_0_iff)
  qed
  have S: "(Suc c + g - 1) div g = c div g + 1" by (rule ceil_div_Suc(1) [OF g])
  have IH: "group_starts gs 0 c = map (\<lambda>k. k * g) [0..<(c + g - 1) div g]"
    using Suc.IH by (simp only: g_def)
  have "group_starts gs 0 (Suc c) = map (\<lambda>k. k * g) [0..<c div g + 1]"
  proof (cases "c mod g = 0")
    case True
    then have "g dvd c" by (simp add: dvd_eq_mod_eq_0)
    then have e: "c div g * g = c" by simp
    have "group_starts gs 0 (Suc c) = group_starts gs 0 c @ [c]"
      using True gs mod by (simp add: group_starts_Suc)
    also have "\<dots> = map (\<lambda>k. k * g) [0..<c div g] @ [c]"
      by (simp only: IH ceil_div_Suc(2) [OF g True])
    also have "\<dots> = map (\<lambda>k. k * g) [0..<c div g + 1]" using e by simp
    finally show ?thesis .
  next
    case False
    have "group_starts gs 0 (Suc c) = group_starts gs 0 c"
      using False gs mod by (simp add: group_starts_Suc)
    also have "\<dots> = map (\<lambda>k. k * g) [0..<c div g + 1]"
      by (simp only: IH ceil_div_Suc(3) [OF g False])
    finally show ?thesis .
  qed
  then have "group_starts gs 0 (Suc c) = map (\<lambda>k. k * nat gs) [0..<c div nat gs + 1]"
    by (simp only: g_def)
  moreover have "(Suc c + nat gs - 1) div nat gs = c div nat gs + 1"
    using S by (simp only: g_def)
  ultimately show ?case by (simp only:)
qed

lemma started_independent:
  assumes "groupsize rn = - 1 \<or> 0 < groupsize rn"
  shows "(if groupsize rn = - 1 then [gq Wt]
          else started rn gq (shape Wt ! 0) (columns_of Wt) 0 (shape Wt ! 1))
       = independent_qparams rn gq Wt"
  using assms
  by (auto simp: independent_qparams_def started_def group_starts_multiples comp_def)

lemma nth_concat_rows:
  assumes "\<And>i. i < r \<Longrightarrow> length (f i) = c" "i < r" "j < c"
  shows "concat (map f [0..<r]) ! (i * c + j) = f i ! j"
  using assms
proof (induction r)
  case 0
  then show ?case by simp
next
  case (Suc r)
  have "map (\<lambda>x. length (f x)) [0..<r] = replicate r c"
    using Suc.prems(1) by (intro nth_equalityI) simp_all
  then have l: "length (concat (map f [0..<r])) = r * c"
    by (simp add: length_concat comp_def sum_list_replicate)
  show ?case
  proof (cases "i < r")
    case True
    then have "i * c + j < r * c"
    proof -
      have "i * c + j < i * c + c" using Suc.prems(3) by simp
      also have "\<dots> = Suc i * c" by simp
      also have "\<dots> \<le> r * c" using True by (intro mult_le_mono1) simp
      finally show ?thesis .
    qed
    with l True Suc show ?thesis by (simp add: nth_append)
  next
    case False
    with Suc.prems(2) have "i = r" by simp
    with l show ?thesis by (simp add: nth_append)
  qed
qed

lemma column_from_columns:
  assumes "columns_ok r c cs" "j < c"
  shows "column (from_columns r cs) j = cs ! j"
proof (rule nth_equalityI)
  show "length (column (from_columns r cs) j) = length (cs ! j)"
    using columns_ok_nth [OF assms] by (simp add: column_def from_columns_def)
next
  fix i assume "i < length (column (from_columns r cs) j)"
  then have i: "i < r" by (simp add: column_def from_columns_def)
  have lc: "length cs = c" using assms(1) by (simp add: columns_ok_def)
  have "concat (map (\<lambda>i. map (\<lambda>c. c ! i) cs) [0..<r]) ! (i * c + j) = map (\<lambda>c. c ! i) cs ! j"
    using i assms(2) lc by (intro nth_concat_rows) simp_all
  with i assms(2) lc show "column (from_columns r cs) j ! i = cs ! j ! i"
    by (simp add: column_def from_columns_def)
qed

lemma is_matrix_from_columns:
  "is_matrix (from_columns r cs)"
  by (simp add: is_matrix_def length_data_from_columns) (simp add: from_columns_def)

lemma faster_quant_identity:
  assumes "qmode rn = Some qm" "get_qparams_func qm = Some gq"
    and "is_matrix Wt" "0 < shape Wt ! 1"
    and "0 < 1 + percdamp rn" "0 < blocksize rn" "groupsize rn = - 1 \<or> 0 < groupsize rn"
    and "\<And>qp w. length w = shape Wt ! 0 \<Longrightarrow> length (round_trip qm qp w) = shape Wt ! 0"
  shows "faster_quant rn (scaled_identity (shape Wt ! 1) 1) Wt =
     Inr (quantize_func qm (independent_DQ rn qm gq Wt)
            (combine_qparams_list_func qm (independent_qparams rn gq Wt)),
          to_orig_dtype rn (independent_DQ rn qm gq Wt),
          combine_qparams_list_func qm (independent_qparams rn gq Wt))"
proof -
  have "faster_quant_groups rn qm gq (scaled_identity (shape Wt ! 1) 1) Wt =
     Inr (map (\<lambda>j. round_trip qm (qparams_at rn gq Wt (columns_of Wt) j) (column Wt j))
            [0..<shape Wt ! 1],
          independent_qparams rn gq Wt)"
    using faster_quant_groups_identity [OF assms(3-8), of gq]
    by (simp only: started_independent [OF assms(7)])
  then show ?thesis
    unfolding faster_quant_def independent_DQ_def
    by (simp add: assms(1,2) bind_err_def Let_def)
qed

lemma independent_Q_from_laws:
  assumes m: "is_matrix Wt"
    and shape: "\<And>qp w. length w = shape Wt ! 0 \<Longrightarrow> length (round_trip qm qp w) = shape Wt ! 0"
    and columnwise: "\<And>T. is_matrix T \<Longrightarrow> shape T = shape Wt \<Longrightarrow>
       quantize_func qm T (combine_qparams_list_func qm (independent_qparams rn gq Wt)) =
       from_columns (shape Wt ! 0)
         (map (\<lambda>j. quantize_column qm (qparams_at rn gq Wt (columns_of Wt) j) (column T j))
            [0..<shape Wt ! 1])"
    and idem: "\<And>qp w. quantize_column qm qp (round_trip qm qp w) = quantize_column qm qp w"
  shows "quantize_func qm (independent_DQ rn qm gq Wt)
           (combine_qparams_list_func qm (independent_qparams rn gq Wt))
         = independent_Q rn qm gq Wt"
proof -
  define r where "r = shape Wt ! 0"
  define c where "c = shape Wt ! 1"
  define cs where "cs = map (\<lambda>j. round_trip qm (qparams_at rn gq Wt (columns_of Wt) j)
                                (column Wt j)) [0..<c]"
  have D: "independent_DQ rn qm gq Wt = from_columns r cs"
    by (simp add: independent_DQ_def cs_def r_def c_def)
  have ok: "columns_ok r c cs"
    using shape by (simp add: columns_ok_def cs_def list_all_length length_column r_def)
  have sh: "shape (from_columns r cs) = shape Wt"
    using shape_matrix [OF m] ok by (simp add: from_columns_def columns_ok_def r_def c_def)
  have "quantize_func qm (from_columns r cs)
          (combine_qparams_list_func qm (independent_qparams rn gq Wt))
      = from_columns r
         (map (\<lambda>j. quantize_column qm (qparams_at rn gq Wt (columns_of Wt) j)
                     (column (from_columns r cs) j)) [0..<c])"
    using columnwise [OF is_matrix_from_columns sh] by (simp only: r_def c_def)
  also have "map (\<lambda>j. quantize_column qm (qparams_at rn gq Wt (columns_of Wt) j)
                     (column (from_columns r cs) j)) [0..<c]
      = map (\<lambda>j. quantize_column qm (qparams_at rn gq Wt (columns_of Wt) j) (column Wt j)) [0..<c]"
  proof (rule map_cong [OF refl])
    fix j assume "j \<in> set [0..<c]"
    then have j: "j < c" by simp
    have "column (from_columns r cs) j = cs ! j" by (rule column_from_columns [OF ok j])
    also have "\<dots> = round_trip qm (qparams_at rn gq Wt (columns_of Wt) j) (column Wt j)"
      using j by (simp add: cs_def)
    finally show "quantize_column qm (qparams_at rn gq Wt (columns_of Wt) j)
                     (column (from_columns r cs) j)
        = quantize_column qm (qparams_at rn gq Wt (columns_of Wt) j) (column Wt j)"
      by (simp only: idem)
  qed
  finally show ?thesis
    by (simp only: D independent_Q_def r_def c_def)
qed

text \<open>
  Claim C3. Let the Hessian be the identity matrix, for a weight with at least one column, a
  positive block size, a dampening above \<open>-1\<close> and a group size that is positive or the
  whole-tensor sentinel, and let the plugin return a column of the same length for a column.
  Then \<^verbatim>\<open>faster_quant\<close> returns, and its \<open>DQ\<close> is the independent reconstruction (in the
  dtype of the weights): every column of the original weight quantized and dequantized with
  the qparams of its group, which are computed from the group's columns of the original
  weight. The returned qparams combine these per-group qparams. \<open>Q\<close> is the independent
  quantization of the original weight as soon as the plugin quantizes, under the combined
  qparams, every column with the qparams of its group, and quantizes a reconstructed column
  back to its quantized column.
\<close>

theorem identity_hessian_is_independent_quantization:
  assumes "qmode rn = Some qm" "get_qparams_func qm = Some gq"
    and "is_matrix Wt" "0 < shape Wt ! 1"
    and "0 < 1 + percdamp rn" "0 < blocksize rn" "groupsize rn = - 1 \<or> 0 < groupsize rn"
    and "\<And>qp w. length w = shape Wt ! 0 \<Longrightarrow> length (round_trip qm qp w) = shape Wt ! 0"
  shows "faster_quant rn (scaled_identity (shape Wt ! 1) 1) Wt =
     Inr (quantize_func qm (independent_DQ rn qm gq Wt)
            (combine_qparams_list_func qm (independent_qparams rn gq Wt)),
          to_orig_dtype rn (independent_DQ rn qm gq Wt),
          combine_qparams_list_func qm (independent_qparams rn gq Wt)) \<and>
     ((\<forall>T. is_matrix T \<and> shape T = shape Wt \<longrightarrow>
          quantize_func qm T (combine_qparams_list_func qm (independent_qparams rn gq Wt)) =
          from_columns (shape Wt ! 0)
            (map (\<lambda>j. quantize_column qm (qparams_at rn gq Wt (columns_of Wt) j) (column T j))
               [0..<shape Wt ! 1])) \<and>
      (\<forall>qp w. quantize_column qm qp (round_trip qm qp w) = quantize_column qm qp w) \<longrightarrow>
      quantize_func qm (independent_DQ rn qm gq Wt)
        (combine_qparams_list_func qm (independent_qparams rn gq Wt))
      = independent_Q rn qm gq Wt)"
proof (intro conjI impI)
  show "faster_quant rn (scaled_identity (shape Wt ! 1) 1) Wt =
     Inr (quantize_func qm (independent_DQ rn qm gq Wt)
            (combine_qparams_list_func qm (independent_qparams rn gq Wt)),
          to_orig_dtype rn (independent_DQ rn qm gq Wt),
          combine_qparams_list_func qm (independent_qparams rn gq Wt))"
    by (rule faster_quant_identity [OF assms])
next
  assume laws: "(\<forall>T. is_matrix T \<and> shape T = shape Wt \<longrightarrow>
          quantize_func qm T (combine_qparams_list_func qm (independent_qparams rn gq Wt)) =
          from_columns (shape Wt ! 0)
            (map (\<lambda>j. quantize_column qm (qparams_at rn gq Wt (columns_of Wt) j) (column T j))
               [0..<shape Wt ! 1])) \<and>
      (\<forall>qp w. quantize_column qm qp (round_trip qm qp w) = quantize_column qm qp w)"
  show "quantize_func qm (independent_DQ rn qm gq Wt)
        (combine_qparams_list_func qm (independent_qparams rn gq Wt))
      = independent_Q rn qm gq Wt"
    by (rule independent_Q_from_laws [OF assms(3) assms(8)]) (use laws in simp_all)
qed

lemma requantize_absmax:
  "quantize_column (absmax_mode g) qp (round_trip (absmax_mode g) qp w)
     = quantize_column (absmax_mode g) qp w"
  by (simp add: quantize_column_absmax round_trip_absmax)

lemma independent_three_columns:
  "independent_qparams (plain_runner 2 2 (absmax_mode 2)) absmax_qparams
     (row_weight [1, 5 / 2, 3]) = [[5 / 8], [3 / 4]]"
  "independent_DQ (plain_runner 2 2 (absmax_mode 2)) (absmax_mode 2) absmax_qparams
     (row_weight [1, 5 / 2, 3]) = row_weight [5 / 8, 5 / 2, 3]"
  "independent_Q (plain_runner 2 2 (absmax_mode 2)) (absmax_mode 2) absmax_qparams
     (row_weight [1, 5 / 2, 3]) = row_weight [1, 4, 4]"
  by (simp_all add: independent_qparams_def independent_DQ_def independent_Q_def
      plain_runner_fields round_trip_absmax quantize_column_absmax qparams_at_def
      group_slice_def current_group_def columns_of_def column_def
      row_weight_def from_columns_def py_slice_def slice_index_def absmax_qparams_def
      absmax_def scale_for_def upt_rec Let_def)

lemma qparams_at_three_columns:
  "j < 3 \<Longrightarrow> qparams_at (plain_runner 2 2 (absmax_mode 2)) absmax_qparams
     (row_weight [1, 5 / 2, 3]) (columns_of (row_weight [1, 5 / 2, 3])) j
   = (if j < 2 then [5 / 8] else [3 / 4])"
  by (auto simp: less_Suc_eq numeral_3_eq_3 numeral_2_eq_2 plain_runner_fields qparams_at_def
      group_slice_def current_group_def columns_of_def column_def
      row_weight_def from_columns_def py_slice_def slice_index_def absmax_qparams_def
      absmax_def upt_rec Let_def)

lemma columnwise_three_columns:
  assumes "is_matrix T" "shape T = shape (row_weight [1, 5 / 2, 3])"
  shows "quantize_func (absmax_mode 2) T
       (combine_qparams_list_func (absmax_mode 2)
          (independent_qparams (plain_runner 2 2 (absmax_mode 2)) absmax_qparams
             (row_weight [1, 5 / 2, 3]))) =
     from_columns (shape (row_weight [1, 5 / 2, 3]) ! 0)
       (map (\<lambda>j. quantize_column (absmax_mode 2)
                   (qparams_at (plain_runner 2 2 (absmax_mode 2)) absmax_qparams
                      (row_weight [1, 5 / 2, 3]) (columns_of (row_weight [1, 5 / 2, 3])) j)
                   (column T j))
          [0..<shape (row_weight [1, 5 / 2, 3]) ! 1])"
proof -
  have s: "shape T = [1, 3]" using assms(2) by (simp add: row_weight_sel)
  with assms(1) have "length (data T) = 3" by (simp add: is_matrix_def)
  then obtain a b c where d: "data T = [a, b, c]"
    by (auto simp: length_Suc_conv numeral_3_eq_3)
  have T: "T = \<lparr>shape = [1, 3], data = [a, b, c]\<rparr>" using s d by (cases T) simp
  let ?Q = "\<lparr>shape = [1, 3],
             data = [of_int \<lfloor>a / (5 / 8)\<rfloor>, of_int \<lfloor>b / (5 / 8)\<rfloor>, of_int \<lfloor>c / (3 / 4)\<rfloor>]\<rparr>"
  have L: "quantize_func (absmax_mode 2) T
       (combine_qparams_list_func (absmax_mode 2)
          (independent_qparams (plain_runner 2 2 (absmax_mode 2)) absmax_qparams
             (row_weight [1, 5 / 2, 3]))) = ?Q"
    unfolding independent_three_columns
    by (simp add: T absmax_mode_def scale_for_def upt_rec)
  have c: "shape (row_weight [1, 5 / 2, 3]) ! 1 = 3" and r: "shape (row_weight [1, 5 / 2, 3]) ! 0 = 1"
    by (simp_all add: row_weight_sel)
  have "map (\<lambda>j. quantize_column (absmax_mode 2)
                   (qparams_at (plain_runner 2 2 (absmax_mode 2)) absmax_qparams
                      (row_weight [1, 5 / 2, 3]) (columns_of (row_weight [1, 5 / 2, 3])) j)
                   (column T j)) [0..<3]
      = map (\<lambda>j. quantize_column (absmax_mode 2) (if j < 2 then [5 / 8] else [3 / 4])
                   (column T j)) [0..<3]"
    by (rule map_cong [OF refl]) (simp add: qparams_at_three_columns)
  also have "\<dots> = [[of_int \<lfloor>a / (5 / 8)\<rfloor>], [of_int \<lfloor>b / (5 / 8)\<rfloor>], [of_int \<lfloor>c / (3 / 4)\<rfloor>]]"
    by (simp add: T quantize_column_absmax scale_for_def column_def upt_rec)
  finally have R: "from_columns (shape (row_weight [1, 5 / 2, 3]) ! 0)
       (map (\<lambda>j. quantize_column (absmax_mode 2)
                   (qparams_at (plain_runner 2 2 (absmax_mode 2)) absmax_qparams
                      (row_weight [1, 5 / 2, 3]) (columns_of (row_weight [1, 5 / 2, 3])) j)
                   (column T j))
          [0..<shape (row_weight [1, 5 / 2, 3]) ! 1]) = ?Q"
    unfolding c r by (simp add: from_columns_def upt_rec)
  show ?thesis by (simp only: L R)
qed

theorem identity_hessian_is_independent_quantization_witness:
  "faster_quant (plain_runner 2 2 (absmax_mode 2)) [[1, 0, 0], [0, 1, 0], [0, 0, 1]]
     (row_weight [1, 5 / 2, 3])
     = Inr (independent_Q (plain_runner 2 2 (absmax_mode 2)) (absmax_mode 2) absmax_qparams
              (row_weight [1, 5 / 2, 3]),
            independent_DQ (plain_runner 2 2 (absmax_mode 2)) (absmax_mode 2) absmax_qparams
              (row_weight [1, 5 / 2, 3]),
            concat (independent_qparams (plain_runner 2 2 (absmax_mode 2)) absmax_qparams
              (row_weight [1, 5 / 2, 3]))) \<and>
   independent_Q (plain_runner 2 2 (absmax_mode 2)) (absmax_mode 2) absmax_qparams
     (row_weight [1, 5 / 2, 3]) = row_weight [1, 4, 4] \<and>
   independent_DQ (plain_runner 2 2 (absmax_mode 2)) (absmax_mode 2) absmax_qparams
     (row_weight [1, 5 / 2, 3]) = row_weight [5 / 8, 5 / 2, 3] \<and>
   independent_qparams (plain_runner 2 2 (absmax_mode 2)) absmax_qparams
     (row_weight [1, 5 / 2, 3]) = [[5 / 8], [3 / 4]]"
proof -
  let ?rn = "plain_runner 2 2 (absmax_mode 2) :: real list runner"
  let ?W = "row_weight [1, 5 / 2, 3]"
  have len: "\<And>qp w. length w = shape ?W ! 0 \<Longrightarrow>
      length (round_trip (absmax_mode 2) qp w) = shape ?W ! 0"
    by (simp add: round_trip_absmax)
  have c: "shape ?W ! 1 = 3" by (simp add: row_weight_sel)
  note inst = identity_hessian_is_independent_quantization [of ?rn "absmax_mode 2"
      absmax_qparams ?W, OF _ _ _ _ _ _ _ len]
  have "faster_quant ?rn (scaled_identity (shape ?W ! 1) 1) ?W =
     Inr (quantize_func (absmax_mode 2) (independent_DQ ?rn (absmax_mode 2) absmax_qparams ?W)
            (combine_qparams_list_func (absmax_mode 2) (independent_qparams ?rn absmax_qparams ?W)),
          to_orig_dtype ?rn (independent_DQ ?rn (absmax_mode 2) absmax_qparams ?W),
          combine_qparams_list_func (absmax_mode 2) (independent_qparams ?rn absmax_qparams ?W)) \<and>
     quantize_func (absmax_mode 2) (independent_DQ ?rn (absmax_mode 2) absmax_qparams ?W)
        (combine_qparams_list_func (absmax_mode 2) (independent_qparams ?rn absmax_qparams ?W))
      = independent_Q ?rn (absmax_mode 2) absmax_qparams ?W"
    using inst columnwise_three_columns requantize_absmax
    by (simp add: plain_runner_fields absmax_mode_fields is_matrix_def row_weight_sel)
  then show ?thesis
    unfolding c identity_three
    by (simp add: independent_three_columns absmax_mode_fields to_orig_dtype_def
        plain_runner_fields)
qed

subsection \<open>The update of the Hessian accumulator\<close>

lemma reshape_rows_sample_rows:
  "0 < last (shape x) \<Longrightarrow> reshape_rows x (last (shape x)) = Inr (sample_rows x)"
proof -
  assume k: "0 < last (shape x)"
  define k' where "k' = last (shape x)"
  have "take k' (drop (i * k') (data x)) = map (\<lambda>j. data x ! (i * k' + j)) [0..<k']"
    if "i < length (data x) div k'" for i
  proof -
    have "Suc i * k' \<le> (length (data x) div k') * k'" using that by (intro mult_le_mono1) simp
    also have "\<dots> \<le> length (data x)" by (rule div_times_less_eq_dividend)
    finally have b: "i * k' + k' \<le> length (data x)" by simp
    show ?thesis using b by (intro nth_equalityI) simp_all
  qed
  then show ?thesis using k by (simp add: reshape_rows_def sample_rows_def Let_def k'_def)
qed

lemma t_rows_transpose: "t_rows k X = mat_transpose k X"
proof -
  have "map (\<lambda>row. row ! a) X = map (\<lambda>i. X ! i ! a) [0..<length X]" for a
    by (intro nth_equalityI) simp_all
  then show ?thesis by (simp add: t_rows_def mat_transpose_def)
qed

lemma dot_nth:
  assumes "length xs = p" "length ys = p"
  shows "dot xs ys = (\<Sum>l\<leftarrow>[0..<p]. xs ! l * ys ! l)"
proof -
  have "map2 (*) xs ys = map (\<lambda>l. xs ! l * ys ! l) [0..<p]"
    using assms by (intro nth_equalityI) simp_all
  then show ?thesis by (simp add: dot_def)
qed

lemma matmul_t_is_product:
  assumes "length A = k" "\<And>i. i < k \<Longrightarrow> length (A ! i) = p"
  shows "matmul_t A = mat_mul k A (mat_transpose p A)"
proof -
  have "map (\<lambda>b. dot (A ! i) b) A
      = map (\<lambda>j. (\<Sum>l\<leftarrow>[0..<length (mat_transpose p A)]. A ! i ! l * mat_transpose p A ! l ! j))
          [0..<k]" if i: "i < k" for i
  proof (rule nth_equalityI)
    show "length (map (\<lambda>b. dot (A ! i) b) A) = length (map (\<lambda>j.
        (\<Sum>l\<leftarrow>[0..<length (mat_transpose p A)]. A ! i ! l * mat_transpose p A ! l ! j)) [0..<k])"
      using assms(1) by simp
  next
    fix j assume "j < length (map (\<lambda>b. dot (A ! i) b) A)"
    then have j: "j < k" using assms(1) by simp
    have "dot (A ! i) (A ! j) = (\<Sum>l\<leftarrow>[0..<p]. A ! i ! l * A ! j ! l)"
      using assms(2) i j by (intro dot_nth) simp_all
    also have "\<dots> = (\<Sum>l\<leftarrow>[0..<p]. A ! i ! l * mat_transpose p A ! l ! j)"
      using j assms(1) by (intro arg_cong [where f = sum_list] map_cong refl)
        (simp add: mat_transpose_def)
    finally show "map (\<lambda>b. dot (A ! i) b) A ! j
        = map (\<lambda>j. (\<Sum>l\<leftarrow>[0..<length (mat_transpose p A)].
                       A ! i ! l * mat_transpose p A ! l ! j)) [0..<k] ! j"
      using j assms(1) by (simp add: mat_transpose_def)
  qed
  then show ?thesis
    using assms(1) by (intro nth_equalityI) (simp_all add: matmul_t_def mat_mul_def)
qed

lemma map2_plus_is_mat_add:
  assumes "length A = length B" "\<And>i. i < length A \<Longrightarrow> length (A ! i) = length (B ! i)"
  shows "map2 (map2 (+)) A B = mat_add A B"
  using assms by (intro nth_equalityI) (auto simp: mat_add_def intro: nth_equalityI)

lemma hessian_step_scaled:
  assumes x0: "tensor_of (cur_args ! 0) = Some x0"
    and x: "x = (case act_fake_quant_func qm of None \<Rightarrow> x0 | Some f \<Rightarrow> f x0)"
    and shp: "shape x \<noteq> []" "0 < last (shape x)"
    and pos: "0 < n + samples_in x"
  shows "hessian_step qm cur_args (H, n) =
     bind_err (add_H (scale_H (real n / real (n + samples_in x)) H)
                 (matmul_t (mat_scale (sqrt (2 / real (n + samples_in x)))
                              (mat_transpose (last (shape x)) (sample_rows x)))))
       (\<lambda>H'. Inr (H', n + samples_in x))"
proof -
  define m where "m = samples_in x"
  have m: "(if length (shape x) = 2 then 1 else shape x ! 0) = m"
    by (simp add: m_def samples_in_def)
  have r: "reshape_rows x (last (shape x)) = Inr (sample_rows x)"
    by (rule reshape_rows_sample_rows [OF shp(2)])
  have pos': "(n = 0 \<and> m = 0) = False" using pos by (simp add: m_def)
  have "hessian_step qm cur_args (H, n) =
     bind_err (add_H (scale_H (real n / real (n + m)) H)
                 (matmul_t (mat_scale (sqrt (2 / real (n + m)))
                              (mat_transpose (last (shape x)) (sample_rows x)))))
       (\<lambda>H'. Inr (H', n + m))"
    using shp(1)
    by (simp add: hessian_step_def x0 x [symmetric] Let_def m r t_rows_transpose mat_scale_def
        bind_err_def pos')
  then show ?thesis by (simp only: m_def)
qed

lemma scaled_rows:
  "length (mat_scale c (mat_transpose k X)) = k"
  "i < k \<Longrightarrow> length (mat_scale c (mat_transpose k X) ! i) = length X"
  by (simp_all add: mat_scale_def mat_transpose_def)

lemma scale_H_Some: "scale_H c (Some H) = Some (mat_scale c H)"
  by (simp add: scale_H_def mat_scale_def mult.commute)

lemma length_mat_mul: "length (mat_mul n A B) = length A"
  "i < length A \<Longrightarrow> length (mat_mul n A B ! i) = n"
  by (simp_all add: mat_mul_def)

lemma add_H_square:
  assumes "square k H" "length B = k" "\<And>i. i < k \<Longrightarrow> length (B ! i) = k"
  shows "add_H (Some (mat_scale c H)) B = Inr (Some (mat_add (mat_scale c H) B))"
proof -
  have l: "length (mat_scale c H) = length B" using assms by (simp add: mat_scale_def square_def)
  have "map2 (map2 (+)) (mat_scale c H) B = mat_add (mat_scale c H) B"
    using assms by (intro map2_plus_is_mat_add) (simp_all add: mat_scale_def square_def list_all_length)
  with l show ?thesis by (simp add: add_H_def)
qed

lemma mat_add_zero:
  assumes "length B = k" "\<And>i. i < k \<Longrightarrow> length (B ! i) = k"
  shows "mat_add (mat_scale c (zero_matrix k)) B = B"
  using assms
  by (intro nth_equalityI)
     (auto simp: mat_add_def mat_scale_def zero_matrix_def intro!: nth_equalityI)

lemma hessian_step_new_H:
  assumes "tensor_of (cur_args ! 0) = Some x0"
    and "x = (case act_fake_quant_func qm of None \<Rightarrow> x0 | Some f \<Rightarrow> f x0)"
    and "shape x \<noteq> []" "0 < last (shape x)"
    and "0 < n + samples_in x"
  shows "(square (last (shape x)) H \<longrightarrow>
            hessian_step qm cur_args (Some H, n)
              = Inr (Some (new_H_spec H n x), n + samples_in x)) \<and>
         hessian_step qm cur_args (None, n)
           = Inr (Some (new_H_spec (zero_matrix (last (shape x))) n x), n + samples_in x)"
proof -
  define k where "k = last (shape x)"
  define c where "c = sqrt (2 / real (n + samples_in x))"
  define Xs where "Xs = mat_scale c (mat_transpose k (sample_rows x))"
  define B where "B = mat_mul k Xs (mat_transpose (length (sample_rows x)) Xs)"
  have lX: "length Xs = k" "\<And>i. i < k \<Longrightarrow> length (Xs ! i) = length (sample_rows x)"
    by (simp_all add: Xs_def scaled_rows)
  have mm: "matmul_t Xs = B"
    unfolding B_def by (rule matmul_t_is_product [OF lX])
  have lB: "length B = k" "\<And>i. i < k \<Longrightarrow> length (B ! i) = k"
    using lX(1) by (simp_all add: B_def length_mat_mul)
  have step: "hessian_step qm cur_args (H', n) =
      bind_err (add_H (scale_H (real n / real (n + samples_in x)) H') B)
        (\<lambda>H'. Inr (H', n + samples_in x))" for H'
    using hessian_step_scaled [OF assms, of H'] mm by (simp add: Xs_def c_def k_def)
  have spec: "new_H_spec A n x = mat_add (mat_scale (real n / real (n + samples_in x)) A) B" for A
    by (simp add: new_H_spec_def Let_def B_def Xs_def c_def k_def)
  have 1: "hessian_step qm cur_args (Some H, n)
      = Inr (Some (new_H_spec H n x), n + samples_in x)" if "square k H"
    using add_H_square [OF that lB]
    by (simp add: step spec scale_H_Some bind_err_def)
  have 2: "hessian_step qm cur_args (None, n)
      = Inr (Some (new_H_spec (zero_matrix k) n x), n + samples_in x)"
    using mat_add_zero [OF lB]
    by (simp add: step spec scale_H_def add_H_def bind_err_def)
  from 1 2 show ?thesis by (simp add: k_def)
qed















lemma mat_add_entry:
  "a < length A \<Longrightarrow> b < length (A ! a) \<Longrightarrow> mat_add A B ! a ! b = A ! a ! b + B ! a ! b"
  by (simp add: mat_add_def)

lemma mat_scale_entry:
  "a < length A \<Longrightarrow> b < length (A ! a) \<Longrightarrow> mat_scale c A ! a ! b = c * A ! a ! b"
  by (simp add: mat_scale_def)

lemma sample_rows_length:
  "row \<in> set (sample_rows x) \<Longrightarrow> length row = last (shape x)"
  by (auto simp: sample_rows_def Let_def)

lemma scaled_entry:
  assumes "a < k" "l < length X"
  shows "mat_scale c (mat_transpose k X) ! a ! l = c * X ! l ! a"
  using assms by (simp add: mat_scale_def mat_transpose_def)

lemma sqrt_self: "0 \<le> y \<Longrightarrow> sqrt y * sqrt y = y"
  by simp

lemma product_entry:
  assumes "a < k" "b < k" "0 \<le> y"
  shows "mat_mul k (mat_scale (sqrt y) (mat_transpose k X))
           (mat_transpose (length X) (mat_scale (sqrt y) (mat_transpose k X))) ! a ! b
         = y * (\<Sum>row\<leftarrow>X. row ! a * row ! b)"
proof -
  let ?Xs = "mat_scale (sqrt y) (mat_transpose k X)"
  have lXs: "length ?Xs = k" by (simp add: mat_scale_def mat_transpose_def)
  have e: "?Xs ! a ! l * mat_transpose (length X) ?Xs ! l ! b = y * (X ! l ! a * X ! l ! b)"
    if "l < length X" for l
  proof -
    have "mat_transpose (length X) ?Xs ! l ! b = ?Xs ! b ! l"
      using that assms(2) lXs by (simp add: mat_transpose_def)
    then have "?Xs ! a ! l * mat_transpose (length X) ?Xs ! l ! b
        = (sqrt y * X ! l ! a) * (sqrt y * X ! l ! b)"
      using that assms(1,2) by (simp only: scaled_entry)
    also have "\<dots> = (sqrt y * sqrt y) * (X ! l ! a * X ! l ! b)" by (simp add: algebra_simps)
    finally show ?thesis using assms(3) by simp
  qed
  have "mat_mul k ?Xs (mat_transpose (length X) ?Xs) ! a ! b
      = (\<Sum>l\<leftarrow>[0..<length X]. ?Xs ! a ! l * mat_transpose (length X) ?Xs ! l ! b)"
    using assms(1,2) lXs by (simp add: mat_mul_def) (simp add: mat_transpose_def)
  also have "\<dots> = (\<Sum>l\<leftarrow>[0..<length X]. y * (X ! l ! a * X ! l ! b))"
    by (intro arg_cong [where f = sum_list] map_cong refl) (simp add: e)
  also have "\<dots> = y * (\<Sum>l\<leftarrow>[0..<length X]. X ! l ! a * X ! l ! b)"
    by (simp add: sum_list_const_mult)
  also have "map (\<lambda>l. X ! l ! a * X ! l ! b) [0..<length X] = map (\<lambda>row. row ! a * row ! b) X"
    by (intro nth_equalityI) simp_all
  finally show ?thesis .
qed

lemma new_H_spec_entry:
  assumes "square (last (shape x)) H" "a < last (shape x)" "b < last (shape x)"
  shows "new_H_spec H n x ! a ! b
     = real n / real (n + samples_in x) * H ! a ! b
       + 2 / real (n + samples_in x) * gram x a b"
proof -
  define k where "k = last (shape x)"
  have H: "length H = k" "length (H ! a) = k"
    using assms(1,2) by (simp_all add: square_def list_all_length k_def)
  define c where "c = real n / real (n + samples_in x)"
  define y where "y = 2 / real (n + samples_in x)"
  have y: "0 \<le> y" by (simp add: y_def)
  define B where "B = mat_mul k (mat_scale (sqrt y) (mat_transpose k (sample_rows x)))
     (mat_transpose (length (sample_rows x))
        (mat_scale (sqrt y) (mat_transpose k (sample_rows x))))"
  have "new_H_spec H n x = mat_add (mat_scale c H) B"
    by (simp add: new_H_spec_def Let_def B_def c_def y_def k_def)
  moreover have "mat_add (mat_scale c H) B ! a ! b = mat_scale c H ! a ! b + B ! a ! b"
    using H assms(2,3) by (intro mat_add_entry) (simp_all add: mat_scale_def k_def)
  moreover have "mat_scale c H ! a ! b = c * H ! a ! b"
    using H assms(2,3) by (intro mat_scale_entry) (simp_all add: k_def)
  moreover have "B ! a ! b = y * gram x a b"
    unfolding B_def gram_def using assms(2,3) y by (intro product_entry) (simp_all add: k_def)
  ultimately show ?thesis by (simp add: c_def y_def)
qed

lemma square_new_H_spec:
  assumes "square (last (shape x)) H"
  shows "square (last (shape x)) (new_H_spec H n x)"
  using assms
  by (simp add: new_H_spec_def Let_def mat_add_def mat_scale_def square_def list_all_length)

lemma square_zero_matrix: "square k (zero_matrix k)"
  by (simp add: zero_matrix_def square_def list_all_length)

lemma zero_matrix_entry: "a < k \<Longrightarrow> b < k \<Longrightarrow> zero_matrix k ! a ! b = 0"
  by (simp add: zero_matrix_def)

text \<open>
  The value of the accumulator after a list of mini-batches, each with last dimension \<open>k\<close>
  and counting for at least one sample: entry \<open>(a, b)\<close> is twice the sum of
  \<open>row[a] * row[b]\<close> over all rows seen, divided by the number of samples counted.
\<close>

lemma accumulated_hessian_closed_form:
  assumes k: "0 < k"
    and wf: "\<forall>x \<in> set xs. shape (fake_quantized qm x) \<noteq> [] \<and>
               last (shape (fake_quantized qm x)) = k \<and> 0 < samples_in (fake_quantized qm x)"
  shows "\<exists>H. fold_err (\<lambda>x. hessian_step qm [Tensor x]) xs (None, 0)
               = Inr (H, samples_seen qm xs) \<and>
             (xs = [] \<longrightarrow> H = None) \<and>
             (xs \<noteq> [] \<longrightarrow> (\<exists>A. H = Some A \<and> square k A \<and>
                (\<forall>a < k. \<forall>b < k. A ! a ! b
                   = 2 * (\<Sum>x\<leftarrow>xs. gram (fake_quantized qm x) a b) / real (samples_seen qm xs))))"
  using wf
proof (induction xs rule: rev_induct)
  case Nil
  show ?case by (simp add: samples_seen_def)
next
  case (snoc x xs)
  define y where "y = fake_quantized qm x"
  define m where "m = samples_in y"
  define N where "N = samples_seen qm xs"
  from snoc.prems have y: "shape y \<noteq> []" "last (shape y) = k" "0 < m"
    by (simp_all add: y_def m_def)
  have t: "tensor_of ([Tensor x] ! 0) = Some x" by simp
  have yd: "y = (case act_fake_quant_func qm of None \<Rightarrow> x | Some f \<Rightarrow> f x)"
    by (simp add: y_def fake_quantized_def)
  have ky: "0 < last (shape y)" using y(2) k by simp
  have pos: "0 < 0 + samples_in y" "0 < N + samples_in y" using y(3) by (simp_all add: m_def)
  note first = hessian_step_new_H [OF t yd y(1) ky pos(1)]
  note later = hessian_step_new_H [OF t yd y(1) ky pos(2)]
  have tot: "samples_seen qm (xs @ [x]) = N + m"
    by (simp add: samples_seen_def N_def m_def y_def)
  from snoc.IH snoc.prems obtain H where
    f: "fold_err (\<lambda>x. hessian_step qm [Tensor x]) xs (None, 0) = Inr (H, N)" and
    e: "xs = [] \<longrightarrow> H = None" and
    n: "xs \<noteq> [] \<longrightarrow> (\<exists>A. H = Some A \<and> square k A \<and>
          (\<forall>a < k. \<forall>b < k. A ! a ! b
             = 2 * (\<Sum>x\<leftarrow>xs. gram (fake_quantized qm x) a b) / real N))"
    unfolding N_def by auto
  show ?case
  proof (cases "xs = []")
    case True
    then have H: "H = None" and N0: "N = 0" using e by (simp_all add: N_def samples_seen_def)
    let ?A = "new_H_spec (zero_matrix k) 0 y"
    have step: "hessian_step qm [Tensor x] (None, 0) = Inr (Some ?A, m)"
      using first by (simp add: y(2) m_def)
    have sq: "square k ?A"
      using square_new_H_spec [where x = y and H = "zero_matrix k" and n = 0]
        square_zero_matrix [of k]
      by (simp add: y(2))
    have ent: "?A ! a ! b = 2 * gram y a b / real m" if "a < k" "b < k" for a b
      using new_H_spec_entry [where x = y and H = "zero_matrix k" and a = a and b = b and n = 0]
        that square_zero_matrix [of k]
      by (simp add: y(2) m_def zero_matrix_entry)
    have "fold_err (\<lambda>x. hessian_step qm [Tensor x]) (xs @ [x]) (None, 0) = Inr (Some ?A, m)"
      using f H N0 step by (simp add: fold_err_append bind_err_def)
    moreover have "samples_seen qm (xs @ [x]) = m" using tot N0 by simp
    moreover have "\<forall>a < k. \<forall>b < k. ?A ! a ! b
        = 2 * (\<Sum>x\<leftarrow>xs @ [x]. gram (fake_quantized qm x) a b) / real m"
      using ent True by (simp add: y_def)
    ultimately show ?thesis using sq by simp
  next
    case False
    with n obtain A where H: "H = Some A" and sqA: "square k A" and
      A: "\<forall>a < k. \<forall>b < k. A ! a ! b
            = 2 * (\<Sum>x\<leftarrow>xs. gram (fake_quantized qm x) a b) / real N"
      by blast
    have Npos: "0 < N"
    proof -
      from False obtain z zs where "xs = z # zs" by (cases xs) auto
      moreover have "0 < samples_in (fake_quantized qm z)"
        using snoc.prems \<open>xs = z # zs\<close> by simp
      ultimately show ?thesis by (simp add: N_def samples_seen_def)
    qed
    let ?A = "new_H_spec A N y"
    have sqy: "square (last (shape y)) A" using sqA by (simp add: y(2))
    have step: "hessian_step qm [Tensor x] (Some A, N) = Inr (Some ?A, N + m)"
      using later [where H = A] sqy by (simp add: m_def)
    have sq: "square k ?A"
      using square_new_H_spec [OF sqy, where n = N] by (simp add: y(2))
    have ent: "?A ! a ! b
        = 2 * (\<Sum>x\<leftarrow>xs @ [x]. gram (fake_quantized qm x) a b) / real (N + m)"
      if ab: "a < k" "b < k" for a b
    proof -
      define G where "G = (\<Sum>x\<leftarrow>xs. gram (fake_quantized qm x) a b)"
      have "?A ! a ! b = real N / real (N + m) * A ! a ! b + 2 / real (N + m) * gram y a b"
        using new_H_spec_entry [OF sqy, where a = a and b = b and n = N] ab
        by (simp add: y(2) m_def)
      also have "A ! a ! b = 2 * G / real N" using A ab by (simp add: G_def)
      also have "real N / real (N + m) * (2 * G / real N) = 2 * G / real (N + m)"
        using Npos by simp
      also have "2 * G / real (N + m) + 2 / real (N + m) * gram y a b
          = 2 * (G + gram y a b) / real (N + m)"
        by (simp add: add_divide_distrib distrib_left)
      finally show ?thesis by (simp add: G_def y_def)
    qed
    have "fold_err (\<lambda>x. hessian_step qm [Tensor x]) (xs @ [x]) (None, 0)
        = Inr (Some ?A, N + m)"
      using f H step by (simp add: fold_err_append bind_err_def)
    with sq ent tot show ?thesis by simp
  qed
qed

end
